theory Spec2Isabelle
  imports Main "HOL-Library.Word" "HOL-Library.Sublist"
begin

section \<open>Type registry (FDS\_EntityComSystem.h, getComTypeID)\<close>

text \<open>
  \<^verbatim>\<open>using FDS_ComID = std::size_t;\<close>. The identifier type is taken at its 64-bit
  width; the increment wraps as the unsigned C++ increment does.
\<close>

type_synonym FDS_ComID = "64 word"

definition FDS_MAX_COM :: nat where
  "FDS_MAX_COM = 32"

text \<open>
  The two function-local statics: \<open>lastID\<close> of the plain function, and one \<open>typeID\<close>
  per instantiation of the template. A static that has not been initialised yet is
  \<open>None\<close>. Component types are named by values of \<open>'t\<close>.
\<close>

record 't registry =
  lastID :: FDS_ComID
  typeID :: "'t \<Rightarrow> FDS_ComID option"

definition registry_start :: "'t registry" where
  "registry_start = \<lparr>lastID = 0, typeID = (\<lambda>T. None)\<rparr>"

text \<open>\<^verbatim>\<open>inline FDS_ComID getComTypeID() { static FDS_ComID lastID = 0; return lastID++; }\<close>\<close>

definition getComTypeID0 :: "'t registry \<Rightarrow> FDS_ComID \<times> 't registry" where
  "getComTypeID0 r = (lastID r, r\<lparr>lastID := lastID r + 1\<rparr>)"

text \<open>
  \<^verbatim>\<open>template<typename T> FDS_ComID getComTypeID() noexcept
  { static FDS_ComID typeID = getComTypeID(); return typeID; }\<close>
  The initialiser of the static runs on the first call only.
\<close>

definition getComTypeID :: "'t \<Rightarrow> 't registry \<Rightarrow> FDS_ComID \<times> 't registry" where
  "getComTypeID T r =
     (case typeID r T of
        Some i \<Rightarrow> (i, r)
      | None \<Rightarrow>
          (case getComTypeID0 r of
             (i, r') \<Rightarrow> (i, r'\<lparr>typeID := (typeID r')(T \<mapsto> i)\<rparr>)))"

text \<open>The registry after a process has called the template for the types \<open>ts\<close>, in order.\<close>

definition registry_from :: "'t registry \<Rightarrow> 't list \<Rightarrow> 't registry" where
  "registry_from r ts = foldl (\<lambda>r T. snd (getComTypeID T r)) r ts"

definition registry_after :: "'t list \<Rightarrow> 't registry" where
  "registry_after ts = registry_from registry_start ts"

text \<open>
  What holds of the registry when the set of types seen so far is \<open>S\<close>: the counter is
  the number of types seen, exactly the seen types have an identifier, every identifier
  is below the counter, and no two types share one.
\<close>

definition reg_inv :: "'t registry \<Rightarrow> 't set \<Rightarrow> bool" where
  "reg_inv r S =
     (lastID r = of_nat (card S) \<and> dom (typeID r) = S \<and>
      (\<forall>T i. typeID r T = Some i \<longrightarrow> unat i < card S) \<and>
      inj_on (typeID r) S)"

section \<open>Objects on the free store\<close>

text \<open>
  Entities and components are created with \<^verbatim>\<open>new\<close> and referred to by pointers
  (\<^verbatim>\<open>owner\<close>, \<^verbatim>\<open>m_comArray\<close>, the references the adders return). A store is a list of
  cells; the address of an object is its index, \<^verbatim>\<open>new\<close> appends a cell, \<^verbatim>\<open>delete\<close>
  empties one. An address is never handed out twice.
\<close>

type_synonym 'x store = "'x option list"

type_synonym eref = nat
type_synonym cref = nat

definition store_lookup :: "'x store \<Rightarrow> nat \<Rightarrow> 'x option" where
  "store_lookup h a = (if a < length h then h ! a else None)"

definition store_new :: "'x \<Rightarrow> 'x store \<Rightarrow> nat \<times> 'x store" where
  "store_new x h = (length h, h @ [Some x])"

definition store_put :: "nat \<Rightarrow> 'x \<Rightarrow> 'x store \<Rightarrow> 'x store" where
  "store_put a x h = h[a := Some x]"

definition store_delete :: "nat \<Rightarrow> 'x store \<Rightarrow> 'x store" where
  "store_delete a h = h[a := None]"

text \<open>
  What C++ leaves undefined is a value of the model, so that no theorem speaks about a
  run that has left the language: reading through a null or a dead pointer, indexing
  \<^verbatim>\<open>std::array\<close> or \<^verbatim>\<open>std::bitset\<close> with \<^verbatim>\<open>operator[]\<close> beyond the size, and going on
  with a range-for over a vector that was resized under it. The program itself reports
  none of these.
\<close>

datatype fault = NullDeref | OutOfRange | Dangling | IteratorInvalidated

section \<open>FDS\_Component\<close>

text \<open>
  \<^verbatim>\<open>FDS_Entity* owner = nullptr;\<close> and the dynamic type of the object, which selects
  the virtual hooks. \<open>members\<close> is what the constructor of the subclass stored from its
  arguments.
\<close>

record ('t, 'a) FDS_Component =
  owner :: "eref option"
  dyn_type :: 't
  members :: 'a

section \<open>FDS\_Entity\<close>

text \<open>
  \<^verbatim>\<open>std::array<FDS_Component*, FDS_MAX_COM>\<close> is a table on the indices below
  \<open>FDS_MAX_COM\<close>; every access checks the index first, since \<^verbatim>\<open>operator[]\<close> does not.
  \<^verbatim>\<open>std::bitset<FDS_MAX_COM>\<close> is a 32-bit word.
\<close>

record FDS_Entity =
  m_isActive :: bool
  m_components :: "cref list"
  m_comArray :: "nat \<Rightarrow> cref option"
  m_comBitSet :: "32 word"

text \<open>The default member initialisers.\<close>

definition FDS_Entity_new :: FDS_Entity where
  "FDS_Entity_new =
     \<lparr>m_isActive = True, m_components = [],
      m_comArray = (\<lambda>i. None), m_comBitSet = 0\<rparr>"

text \<open>
  Everything a hook of a component can reach: the static counters, the two stores, and
  the rest of the program (\<open>user\<close>).
\<close>

record ('t, 'a, 'u) world =
  reg :: "'t registry"
  ents :: "FDS_Entity store"
  comps :: "('t, 'a) FDS_Component store"
  user :: 'u

text \<open>
  The virtual functions. The subclasses are not part of the library, so their hooks are
  a parameter \<open>vt\<close> of every function that makes a virtual call: the table of the
  dynamic type.
\<close>

type_synonym ('t, 'a, 'u) hook = "cref \<Rightarrow> ('t, 'a, 'u) world \<Rightarrow> ('t, 'a, 'u) world"

record ('t, 'a, 'u) vtable =
  init :: "('t, 'a, 'u) hook"
  update :: "('t, 'a, 'u) hook"
  draw :: "('t, 'a, 'u) hook"
  dtor :: "('t, 'a, 'u) hook"

text \<open>
  \<^verbatim>\<open>virtual ~FDS_Component() {}
  virtual void init() {}  virtual void update() {}  virtual void draw() {}\<close>
  \<open>dtor\<close> is the destructor of the dynamic type, which runs before the object is freed.
\<close>

definition FDS_Component_vtable :: "('t, 'a, 'u) vtable" where
  "FDS_Component_vtable =
     \<lparr>init = (\<lambda>c w. w), update = (\<lambda>c w. w), draw = (\<lambda>c w. w), dtor = (\<lambda>c w. w)\<rparr>"

text \<open>\<^verbatim>\<open>bool isActive() const noexcept { return m_isActive; }\<close>\<close>

definition FDS_Entity_isActive :: "eref \<Rightarrow> ('t, 'a, 'u) world \<Rightarrow> fault + bool" where
  "FDS_Entity_isActive this w =
     (case store_lookup (ents w) this of
        None \<Rightarrow> Inl Dangling
      | Some ent \<Rightarrow> Inr (m_isActive ent))"

text \<open>\<^verbatim>\<open>void destroy() noexcept { m_isActive = false; }\<close>\<close>

definition FDS_Entity_destroy :: "eref \<Rightarrow> ('t, 'a, 'u) world \<Rightarrow> fault + ('t, 'a, 'u) world" where
  "FDS_Entity_destroy this w =
     (case store_lookup (ents w) this of
        None \<Rightarrow> Inl Dangling
      | Some ent \<Rightarrow> Inr (w\<lparr>ents := store_put this (ent\<lparr>m_isActive := False\<rparr>) (ents w)\<rparr>))"

text \<open>\<^verbatim>\<open>return m_comBitSet[getComTypeID<T>()];\<close> The call of the template may register \<open>T\<close>.\<close>

definition FDS_Entity_hasComponent ::
  "'t \<Rightarrow> eref \<Rightarrow> ('t, 'a, 'u) world \<Rightarrow> fault + (bool \<times> ('t, 'a, 'u) world)" where
  "FDS_Entity_hasComponent T this w =
     (case store_lookup (ents w) this of
        None \<Rightarrow> Inl Dangling
      | Some ent \<Rightarrow>
          (case getComTypeID T (reg w) of
             (i, r) \<Rightarrow>
               if unat i < FDS_MAX_COM
               then Inr (bit (m_comBitSet ent) (unat i), w\<lparr>reg := r\<rparr>)
               else Inl OutOfRange))"

text \<open>
  The constructor of the subclass is taken to initialise its object and nothing else.
  \<^verbatim>\<open>T* com( new T( std::forward<TArgs>(mArgs)... ) );
  com->owner = this;
  std::unique_ptr<FDS_Component> uPtr{ com };
  m_components.emplace_back(std::move(uPtr));
  m_comArray[getComTypeID<T>()] = com;
  m_comBitSet[getComTypeID<T>()] = true;
  com->init();
  return *com;\<close>
\<close>

definition FDS_Entity_addComponent ::
  "('t \<Rightarrow> ('t, 'a, 'u) vtable) \<Rightarrow> 't \<Rightarrow> 'a \<Rightarrow> eref \<Rightarrow> ('t, 'a, 'u) world
     \<Rightarrow> fault + (cref \<times> ('t, 'a, 'u) world)" where
  "FDS_Entity_addComponent vt T mArgs this w =
     (case store_lookup (ents w) this of
        None \<Rightarrow> Inl Dangling
      | Some ent \<Rightarrow>
          (case store_new \<lparr>owner = None, dyn_type = T, members = mArgs\<rparr> (comps w) of
             (com, h) \<Rightarrow>
               let h1 = store_put com \<lparr>owner = Some this, dyn_type = T, members = mArgs\<rparr> h;
                   ent1 = ent\<lparr>m_components := m_components ent @ [com]\<rparr>
               in (case getComTypeID T (reg w) of
                     (i, r1) \<Rightarrow>
                       if \<not> unat i < FDS_MAX_COM then Inl OutOfRange
                       else
                         let ent2 = ent1\<lparr>m_comArray := (m_comArray ent1)(unat i := Some com)\<rparr>
                         in (case getComTypeID T r1 of
                               (j, r2) \<Rightarrow>
                                 if \<not> unat j < FDS_MAX_COM then Inl OutOfRange
                                 else
                                   let ent3 = ent2\<lparr>m_comBitSet :=
                                                set_bit (unat j) (m_comBitSet ent2)\<rparr>;
                                       w1 = w\<lparr>reg := r2, ents := store_put this ent3 (ents w),
                                              comps := h1\<rparr>
                                   in Inr (com, init (vt T) com w1)))))"

text \<open>
  \<^verbatim>\<open>auto ptr( m_comArray[getComTypeID<T>()] );
  return *static_cast<T*>(ptr);\<close>
\<close>

definition FDS_Entity_getComponent ::
  "'t \<Rightarrow> eref \<Rightarrow> ('t, 'a, 'u) world \<Rightarrow> fault + (cref \<times> ('t, 'a, 'u) world)" where
  "FDS_Entity_getComponent T this w =
     (case store_lookup (ents w) this of
        None \<Rightarrow> Inl Dangling
      | Some ent \<Rightarrow>
          (case getComTypeID T (reg w) of
             (i, r) \<Rightarrow>
               if \<not> unat i < FDS_MAX_COM then Inl OutOfRange
               else
                 (case m_comArray ent (unat i) of
                    None \<Rightarrow> Inl NullDeref
                  | Some ptr \<Rightarrow> Inr (ptr, w\<lparr>reg := r\<rparr>))))"

text \<open>
  \<^verbatim>\<open>for (auto& c : m_components) c->update();\<close> and the same with \<^verbatim>\<open>draw\<close>. The loop
  walks the vector as it was when the loop began (\<open>cs0\<close>); \<open>sel\<close> picks the hook.
\<close>

fun for_components ::
  "(('t, 'a, 'u) vtable \<Rightarrow> ('t, 'a, 'u) hook) \<Rightarrow> ('t \<Rightarrow> ('t, 'a, 'u) vtable) \<Rightarrow> eref
     \<Rightarrow> cref list \<Rightarrow> cref list \<Rightarrow> ('t, 'a, 'u) world \<Rightarrow> fault + ('t, 'a, 'u) world" where
  "for_components sel vt this cs0 [] w = Inr w"
| "for_components sel vt this cs0 (c # cs) w =
     (case store_lookup (comps w) c of
        None \<Rightarrow> Inl Dangling
      | Some x \<Rightarrow>
          let w' = sel (vt (dyn_type x)) c w
          in (case store_lookup (ents w') this of
                None \<Rightarrow> Inl Dangling
              | Some ent' \<Rightarrow>
                  if m_components ent' \<noteq> cs0 then Inl IteratorInvalidated
                  else for_components sel vt this cs0 cs w'))"

definition FDS_Entity_update ::
  "('t \<Rightarrow> ('t, 'a, 'u) vtable) \<Rightarrow> eref \<Rightarrow> ('t, 'a, 'u) world \<Rightarrow> fault + ('t, 'a, 'u) world" where
  "FDS_Entity_update vt this w =
     (case store_lookup (ents w) this of
        None \<Rightarrow> Inl Dangling
      | Some ent \<Rightarrow> for_components update vt this (m_components ent) (m_components ent) w)"

definition FDS_Entity_draw ::
  "('t \<Rightarrow> ('t, 'a, 'u) vtable) \<Rightarrow> eref \<Rightarrow> ('t, 'a, 'u) world \<Rightarrow> fault + ('t, 'a, 'u) world" where
  "FDS_Entity_draw vt this w =
     (case store_lookup (ents w) this of
        None \<Rightarrow> Inl Dangling
      | Some ent \<Rightarrow> for_components draw vt this (m_components ent) (m_components ent) w)"

section \<open>FDS\_EntityManager\<close>

text \<open>
  \<^verbatim>\<open>std::vector<std::unique_ptr<FDS_Entity>> m_entities;\<close> Neither a component nor an
  entity holds a pointer to a manager, so the manager is kept outside the world that the
  hooks transform.
\<close>

record FDS_EntityManager =
  m_entities :: "eref list"


text \<open>\<^verbatim>\<open>for (auto& e : m_entities) e->update();\<close> and the same with \<^verbatim>\<open>draw\<close>.\<close>

fun for_entities ::
  "(eref \<Rightarrow> ('t, 'a, 'u) world \<Rightarrow> fault + ('t, 'a, 'u) world) \<Rightarrow> eref list
     \<Rightarrow> ('t, 'a, 'u) world \<Rightarrow> fault + ('t, 'a, 'u) world" where
  "for_entities f [] w = Inr w"
| "for_entities f (e # es) w =
     (case f e w of
        Inl x \<Rightarrow> Inl x
      | Inr w' \<Rightarrow> for_entities f es w')"

definition FDS_EntityManager_update ::
  "('t \<Rightarrow> ('t, 'a, 'u) vtable) \<Rightarrow> FDS_EntityManager \<Rightarrow> ('t, 'a, 'u) world
     \<Rightarrow> fault + ('t, 'a, 'u) world" where
  "FDS_EntityManager_update vt mgr w = for_entities (FDS_Entity_update vt) (m_entities mgr) w"

definition FDS_EntityManager_draw ::
  "('t \<Rightarrow> ('t, 'a, 'u) vtable) \<Rightarrow> FDS_EntityManager \<Rightarrow> ('t, 'a, 'u) world
     \<Rightarrow> fault + ('t, 'a, 'u) world" where
  "FDS_EntityManager_draw vt mgr w = for_entities (FDS_Entity_draw vt) (m_entities mgr) w"






text \<open>
  \<^verbatim>\<open>FDS_Entity* e = new FDS_Entity();
  std::unique_ptr<FDS_Entity> uPtr{ e };
  m_entities.emplace_back(std::move(uPtr));
  return *e;\<close>
\<close>

definition FDS_EntityManager_addEntity ::
  "FDS_EntityManager \<Rightarrow> ('t, 'a, 'u) world \<Rightarrow> eref \<times> FDS_EntityManager \<times> ('t, 'a, 'u) world" where
  "FDS_EntityManager_addEntity mgr w =
     (case store_new FDS_Entity_new (ents w) of
        (e, h) \<Rightarrow> (e, mgr\<lparr>m_entities := m_entities mgr @ [e]\<rparr>, w\<lparr>ents := h\<rparr>))"

section \<open>Properties of states\<close>

text \<open>The owning pointers of a manager and of its entities point to live objects.\<close>

definition entity_owned :: "('t, 'a, 'u) world \<Rightarrow> eref \<Rightarrow> bool" where
  "entity_owned w e =
     (case store_lookup (ents w) e of
        None \<Rightarrow> False
      | Some ent \<Rightarrow> list_all (\<lambda>c. store_lookup (comps w) c \<noteq> None) (m_components ent))"

definition manager_owned :: "FDS_EntityManager \<Rightarrow> ('t, 'a, 'u) world \<Rightarrow> bool" where
  "manager_owned mgr w = list_all (entity_owned w) (m_entities mgr)"

text \<open>The owned sequence of the entity at \<open>e\<close>.\<close>

definition components_of :: "('t, 'a, 'u) world \<Rightarrow> eref \<Rightarrow> cref list" where
  "components_of w e =
     (case store_lookup (ents w) e of
        None \<Rightarrow> []
      | Some ent \<Rightarrow> m_components ent)"

text \<open>
  What a loop over a vector of owning pointers depends on: which objects exist, the
  owned sequence of every entity, and the dynamic type of every component. A hook keeps
  the layout when it creates and deletes no object and adds no component; it may still
  write to the members of components, to the flags of entities (\<^verbatim>\<open>destroy()\<close>), to the
  registry and to the rest of the program.
\<close>

definition layout :: "('t, 'a, 'u) world \<Rightarrow> cref list option list \<times> 't option list" where
  "layout w = (map (map_option m_components) (ents w), map (map_option dyn_type) (comps w))"

definition keeps_layout :: "('t, 'a, 'u) hook \<Rightarrow> bool" where
  "keeps_layout h = (\<forall>c w. layout (h c w) = layout w)"

text \<open>
  The bitset and the lookup table of an entity agree, slot by slot, and every pointer in
  the table is one of the owned sequence.
\<close>

definition table_agrees :: "FDS_Entity \<Rightarrow> bool" where
  "table_agrees ent =
     ((\<forall>i < FDS_MAX_COM. bit (m_comBitSet ent) i = (m_comArray ent i \<noteq> None)) \<and>
      (\<forall>i c. m_comArray ent i = Some c \<longrightarrow> c \<in> set (m_components ent)))"

text \<open>The entity at \<open>e\<close> is live, and its bitset and lookup table agree.\<close>

definition entity_agrees :: "('t, 'a, 'u) world \<Rightarrow> eref \<Rightarrow> bool" where
  "entity_agrees w e =
     (case store_lookup (ents w) e of
        None \<Rightarrow> False
      | Some ent \<Rightarrow> table_agrees ent)"

text \<open>
  The component at \<open>com\<close> is the one that entity \<open>e\<close> shows for type \<open>T\<close>, and it
  points back to \<open>e\<close>.
\<close>

definition attached :: "'t \<Rightarrow> eref \<Rightarrow> cref \<Rightarrow> ('t, 'a, 'u) world \<Rightarrow> bool" where
  "attached T e com w =
     (FDS_Entity_hasComponent T e w = Inr (True, w) \<and>
      FDS_Entity_getComponent T e w = Inr (com, w) \<and>
      (case store_lookup (comps w) com of
         None \<Rightarrow> False
       | Some x \<Rightarrow> owner x = Some e))"

text \<open>Every hook of every class keeps the layout.\<close>

definition hooks_keep_layout :: "('t \<Rightarrow> ('t, 'a, 'u) vtable) \<Rightarrow> bool" where
  "hooks_keep_layout vt =
     (\<forall>T. keeps_layout (init (vt T)) \<and> keeps_layout (update (vt T)) \<and> keeps_layout (draw (vt T)))"

text \<open>
  Subclasses for observation: the hooks of the class named \<open>T\<close> append the hook, \<open>T\<close>
  and the component's address to a log kept in \<open>user\<close>.
\<close>

datatype hook_name = Init | Update | Draw | Delete

definition recorder :: "'t \<Rightarrow> ('t, 'a, (hook_name \<times> 't \<times> cref) list) vtable" where
  "recorder T =
     \<lparr>init = (\<lambda>c w. w\<lparr>user := user w @ [(Init, T, c)]\<rparr>),
      update = (\<lambda>c w. w\<lparr>user := user w @ [(Update, T, c)]\<rparr>),
      draw = (\<lambda>c w. w\<lparr>user := user w @ [(Draw, T, c)]\<rparr>),
      dtor = (\<lambda>c w. w\<lparr>user := user w @ [(Delete, T, c)]\<rparr>)\<rparr>"

text \<open>
  What a pass over the entities of a manager reads of an entity, its flag and its owned
  sequence, and of a component, its dynamic type; \<open>None\<close> for an address without a live
  object.
\<close>

definition ent_view :: "('t, 'a, 'u) world \<Rightarrow> eref \<Rightarrow> (bool \<times> cref list) option" where
  "ent_view w e = map_option (\<lambda>x. (m_isActive x, m_components x)) (store_lookup (ents w) e)"

definition comp_view :: "('t, 'a, 'u) world \<Rightarrow> cref \<Rightarrow> 't option" where
  "comp_view w c = map_option dyn_type (store_lookup (comps w) c)"

text \<open>
  No destructor of a component class creates or deletes an object, adds a component, or
  sets or clears the flag of an entity.
\<close>

definition dtors_keep_views :: "('t \<Rightarrow> ('t, 'a, 'u) vtable) \<Rightarrow> bool" where
  "dtors_keep_views vt =
     (\<forall>T c w. (\<forall>e. ent_view (dtor (vt T) c w) e = ent_view w e) \<and>
              (\<forall>a. comp_view (dtor (vt T) c w) a = comp_view w a))"





text \<open>The hook of the dynamic type of the object at \<open>c\<close>, as a virtual call finds it.\<close>

definition virtual_call ::
  "(('t, 'a, 'u) vtable \<Rightarrow> ('t, 'a, 'u) hook) \<Rightarrow> ('t \<Rightarrow> ('t, 'a, 'u) vtable)
     \<Rightarrow> ('t, 'a, 'u) world \<Rightarrow> cref \<Rightarrow> ('t, 'a, 'u) world" where
  "virtual_call sel vt w c =
     (case store_lookup (comps w) c of
        None \<Rightarrow> w
      | Some x \<Rightarrow> sel (vt (dyn_type x)) c w)"

section \<open>fds::Signal\<close>

text \<open>
  \<^verbatim>\<open>std::unordered_map<std::size_t, SlotData> slots_;  std::size_t next_id_ = 0;\<close>
  (the trailing underscores of the member names are dropped). A slot is a
  \<^verbatim>\<open>std::function\<close>; it may capture the signal and connect or disconnect
  while it runs. A slot is therefore a name of type \<open>'k\<close>, and what the named callable
  does is the parameter \<open>call\<close> of \<open>emit\<close>: from the arguments, the signal and the
  rest of the program to what it leaves of them. The callables are taken to be non-empty
  and to return normally, also one that disconnects its own id while it runs.
\<close>

record 'k Signal =
  slots :: "64 word \<Rightarrow> 'k option"
  next_id :: "64 word"

record ('k, 'u) signal_world =
  sig :: "'k Signal"
  rest :: 'u

type_synonym ('k, 'args, 'u) callable =
  "'k \<Rightarrow> 'args \<Rightarrow> ('k, 'u) signal_world \<Rightarrow> 'args \<times> ('k, 'u) signal_world"

definition Signal_new :: "'k Signal" where
  "Signal_new = \<lparr>slots = (\<lambda>key. None), next_id = 0\<rparr>"

text \<open>
  \<^verbatim>\<open>const std::size_t id = ++next_id_;
  slots_.emplace(id, SlotData{std::move(slot)});
  return Connection(this, id);\<close>
  \<^verbatim>\<open>emplace\<close> inserts nothing when the key is present.
\<close>

definition connect :: "'k \<Rightarrow> 'k Signal \<Rightarrow> 64 word \<times> 'k Signal" where
  "connect slot s =
     (let key = next_id s + 1
      in (key, s\<lparr>next_id := key,
                slots := (case slots s key of
                             None \<Rightarrow> (slots s)(key \<mapsto> slot)
                           | Some old \<Rightarrow> slots s)\<rparr>))"

text \<open>\<^verbatim>\<open>void disconnect(std::size_t id) { slots_.erase(id); }\<close>\<close>

definition disconnect :: "64 word \<Rightarrow> 'k Signal \<Rightarrow> 'k Signal" where
  "disconnect key s = s\<lparr>slots := (slots s)(key := None)\<rparr>"

text \<open>\<^verbatim>\<open>void disconnect_all() { slots_.clear(); }\<close>\<close>

definition disconnect_all :: "'k Signal \<Rightarrow> 'k Signal" where
  "disconnect_all s = s\<lparr>slots := (\<lambda>key. None)\<rparr>"

text \<open>
  \<^verbatim>\<open>for (auto id : ids) { auto it = slots_.find(id);
    if (it != slots_.end()) { it->second.slot(std::forward<Args>(args)...); } }\<close>
  The arguments are forwarded anew in every round, so the next slot is called with what
  the call before it has left in \<^verbatim>\<open>args\<close>: a moved-from value where a parameter is a
  class type taken by value, what the callee wrote where it is a reference, the same
  value for a scalar or a reference to const. The callable returns this next to the
  state. The result of the loop pairs the calls made, each as the id and the slot
  called, in their order, with the state the loop ends in.
\<close>

fun emit_loop ::
  "('k, 'args, 'u) callable \<Rightarrow> 'args \<Rightarrow> 64 word list \<Rightarrow> ('k, 'u) signal_world
     \<Rightarrow> (64 word \<times> 'k) list \<times> ('k, 'u) signal_world" where
  "emit_loop call args [] w = ([], w)"
| "emit_loop call args (key # ids) w =
     (case slots (sig w) key of
        None \<Rightarrow> emit_loop call args ids w
      | Some slot \<Rightarrow>
          (case call slot args w of
             (args', w1) \<Rightarrow>
               (case emit_loop call args' ids w1 of
                  (called, w') \<Rightarrow> ((key, slot) # called, w'))))"

text \<open>
  \<^verbatim>\<open>std::vector<std::size_t> ids; ids.reserve(slots_.size());
  for (auto &kv : slots_) ids.push_back(kv.first);\<close>
  The order in which an \<^verbatim>\<open>unordered_map\<close> is traversed is unspecified: \<open>ids\<close>, the keys
  as the traversal yields them, is an argument, and \<open>traversal\<close> says that it is one.
\<close>

definition traversal :: "64 word list \<Rightarrow> 'k Signal \<Rightarrow> bool" where
  "traversal ids s = (distinct ids \<and> set ids = dom (slots s))"

definition emit ::
  "('k, 'args, 'u) callable \<Rightarrow> 64 word list \<Rightarrow> 'args \<Rightarrow> ('k, 'u) signal_world
     \<Rightarrow> (64 word \<times> 'k) list \<times> ('k, 'u) signal_world" where
  "emit call ids args w = emit_loop call args ids w"

text \<open>
  For the statements about an emission: the signal before and after each call that the
  loop makes, in the order of the calls.
\<close>

fun emit_steps ::
  "('k, 'args, 'u) callable \<Rightarrow> 'args \<Rightarrow> 64 word list \<Rightarrow> ('k, 'u) signal_world
     \<Rightarrow> ('k Signal \<times> 'k Signal) list" where
  "emit_steps call args [] w = []"
| "emit_steps call args (key # ids) w =
     (case slots (sig w) key of
        None \<Rightarrow> emit_steps call args ids w
      | Some slot \<Rightarrow>
          (case call slot args w of
             (args', w1) \<Rightarrow> (sig w, sig w1) # emit_steps call args' ids w1))"

text \<open>A callable that disconnects no slot that is connected when it is called.\<close>

definition keeps_slots :: "('k, 'args, 'u) callable \<Rightarrow> bool" where
  "keeps_slots call = (\<forall>k args w. slots (sig w) \<subseteq>\<^sub>m slots (sig (snd (call k args w))))"

text \<open>No id of the signal is ahead of the counter: the ids were issued by it.\<close>

definition issued :: "'k Signal \<Rightarrow> bool" where
  "issued s = (\<forall>key. slots s key \<noteq> None \<longrightarrow> unat key \<le> unat (next_id s))"

text \<open>
  From \<open>s\<close> to \<open>s'\<close> the counter has not gone back, and a slot of \<open>s'\<close> is a slot of
  \<open>s\<close> under the same id or has an id that the counter has issued in between. This is
  what calls of \<^verbatim>\<open>connect\<close> and \<^verbatim>\<open>disconnect\<close> do to a signal as long as the counter
  does not wrap around.
\<close>

definition issues_fresh :: "'k Signal \<Rightarrow> 'k Signal \<Rightarrow> bool" where
  "issues_fresh s s' =
     (unat (next_id s) \<le> unat (next_id s') \<and>
      (\<forall>key x. slots s' key = Some x \<longrightarrow>
         slots s key = Some x \<or> (unat (next_id s) < unat key \<and> unat key \<le> unat (next_id s'))))"

text \<open>
  Callables for observation, of a signal without arguments. Each appends its own name
  to the log in \<open>rest\<close>; \<open>Drop\<close> disconnects a key first, \<open>Join\<close> connects a new
  \<open>Note\<close> first.
\<close>

datatype slot_name = Note nat | Drop nat "64 word" | Join nat nat

fun run_slot :: "(slot_name, unit, slot_name list) callable" where
  "run_slot (Note n) u w = (u, w\<lparr>rest := rest w @ [Note n]\<rparr>)"
| "run_slot (Drop n key) u w =
     (u, w\<lparr>sig := disconnect key (sig w), rest := rest w @ [Drop n key]\<rparr>)"
| "run_slot (Join n m) u w =
     (u, w\<lparr>sig := snd (connect (Note m) (sig w)), rest := rest w @ [Join n m]\<rparr>)"

text \<open>The same callables, except that \<open>Drop\<close> only logs.\<close>

fun run_slot_keeping :: "(slot_name, unit, slot_name list) callable" where
  "run_slot_keeping (Drop n key) u w = (u, w\<lparr>rest := rest w @ [Drop n key]\<rparr>)"
| "run_slot_keeping (Note n) u w = run_slot (Note n) u w"
| "run_slot_keeping (Join n m) u w = run_slot (Join n m) u w"

text \<open>
  Callables of a signal with one argument taken by value, a string: each logs the
  string it is called with and leaves the empty string behind, as a move does.
\<close>

fun run_taking :: "(nat, string, (nat \<times> string) list) callable" where
  "run_taking n s w = ([], w\<lparr>rest := rest w @ [(n, s)]\<rparr>)"

text \<open>Two slots, each of which disconnects the other: ids 1 and 2.\<close>

definition mutual :: "(slot_name, slot_name list) signal_world" where
  "mutual =
     \<lparr>sig = snd (connect (Drop 2 1) (snd (connect (Drop 1 2) Signal_new))), rest = []\<rparr>"

text \<open>A slot that connects a new slot while it runs, and a plain one: ids 1 and 2.\<close>

definition joiner :: "(slot_name, slot_name list) signal_world" where
  "joiner =
     \<lparr>sig = snd (connect (Note 2) (snd (connect (Join 1 9) Signal_new))), rest = []\<rparr>"

text \<open>Two slots that take the string: ids 1 and 2.\<close>

definition takers :: "(nat, (nat \<times> string) list) signal_world" where
  "takers = \<lparr>sig = snd (connect 20 (snd (connect 10 Signal_new))), rest = []\<rparr>"

section \<open>FDS\_ConfigManager\<close>

datatype LoadStatus = Success | FileNotFound | ReadError | NotLoaded

text \<open>\<^verbatim>\<open>throw std::runtime_error(...)\<close> with its message.\<close>

datatype exn = runtime_error string

record FDS_ConfigManager =
  m_fileName :: string
  m_configData :: "string \<Rightarrow> (string \<Rightarrow> string option) option"
  m_loadStatus :: LoadStatus
  m_lastError :: string

text \<open>
  \<^verbatim>\<open>m_configData[filter][key] = value ? "true" : "false";\<close>
  \<^verbatim>\<open>operator[]\<close> of \<^verbatim>\<open>std::map\<close> inserts an empty section when the section is new
  (\<open>flt\<close> is the parameter \<^verbatim>\<open>filter\<close>).
\<close>

definition setConfig_bool ::
  "string \<Rightarrow> string \<Rightarrow> bool \<Rightarrow> FDS_ConfigManager \<Rightarrow> FDS_ConfigManager" where
  "setConfig_bool flt key val cm =
     (let section = (case m_configData cm flt of
                       None \<Rightarrow> (\<lambda>k. None)
                     | Some sec \<Rightarrow> sec)
      in cm\<lparr>m_configData :=
              (m_configData cm)(flt \<mapsto> section(key \<mapsto> (if val then ''true'' else ''false'')))\<rparr>)"

text \<open>The specialisation \<^verbatim>\<open>template<> bool FDS_ConfigManager::getConfig(filter, key)\<close>.\<close>

definition getConfig_bool :: "string \<Rightarrow> string \<Rightarrow> FDS_ConfigManager \<Rightarrow> exn + bool" where
  "getConfig_bool flt key cm =
     (case m_configData cm flt of
        None \<Rightarrow> Inl (runtime_error (''Filter not found: '' @ flt))
      | Some sec \<Rightarrow>
          (case sec key of
             None \<Rightarrow> Inl (runtime_error (''Key not found: '' @ key @ '' in filter: '' @ flt))
           | Some val \<Rightarrow>
               if val = ''true'' \<or> val = ''True'' \<or> val = ''1'' then Inr True
               else if val = ''false'' \<or> val = ''False'' \<or> val = ''0'' then Inr False
               else Inl (runtime_error
                           (''Invalid boolean value for key: '' @ key @ '' in filter: '' @ flt))))"

section \<open>Example states\<close>

text \<open>Worlds whose components are of the recording subclasses; the class names are numbers.\<close>

type_synonym recorded = "(nat, unit, (hook_name \<times> nat \<times> cref) list) world"



text \<open>One fresh entity and nothing else.\<close>

definition one_entity :: recorded where
  "one_entity = \<lparr>reg = registry_start, ents = [Some FDS_Entity_new], comps = [], user = []\<rparr>"

text \<open>\<open>one_entity\<close> after \<^verbatim>\<open>addComponent\<close> of class 7.\<close>

definition one_component :: recorded where
  "one_component =
     \<lparr>reg = \<lparr>lastID = 1, typeID = (\<lambda>T. None)(7 \<mapsto> 0)\<rparr>,
      ents = [Some \<lparr>m_isActive = True, m_components = [0],
                    m_comArray = (\<lambda>i. None)(0 \<mapsto> 0), m_comBitSet = set_bit 0 0\<rparr>],
      comps = [Some \<lparr>owner = Some 0, dyn_type = 7, members = ()\<rparr>],
      user = [(Init, 7, 0)]\<rparr>"

text \<open>\<open>one_component\<close> after a second \<^verbatim>\<open>addComponent\<close> of class 7.\<close>

definition shadowed :: recorded where
  "shadowed =
     \<lparr>reg = \<lparr>lastID = 1, typeID = (\<lambda>T. None)(7 \<mapsto> 0)\<rparr>,
      ents = [Some \<lparr>m_isActive = True, m_components = [0, 1],
                    m_comArray = (\<lambda>i. None)(0 \<mapsto> 1), m_comBitSet = set_bit 0 0\<rparr>],
      comps = [Some \<lparr>owner = Some 0, dyn_type = 7, members = ()\<rparr>,
               Some \<lparr>owner = Some 0, dyn_type = 7, members = ()\<rparr>],
      user = [(Init, 7, 0), (Init, 7, 1)]\<rparr>"

text \<open>
  An entity that has been destroyed but not yet removed, with components of classes 5
  and 7, and an active entity with one component of class 5.
\<close>

definition two_entities :: recorded where
  "two_entities =
     \<lparr>reg = registry_start,
      ents = [Some \<lparr>m_isActive = False, m_components = [0, 1],
                    m_comArray = (\<lambda>i. None), m_comBitSet = 0\<rparr>,
              Some \<lparr>m_isActive = True, m_components = [2],
                    m_comArray = (\<lambda>i. None), m_comBitSet = 0\<rparr>],
      comps = [Some \<lparr>owner = Some 0, dyn_type = 5, members = ()\<rparr>,
               Some \<lparr>owner = Some 0, dyn_type = 7, members = ()\<rparr>,
               Some \<lparr>owner = Some 1, dyn_type = 5, members = ()\<rparr>],
      user = []\<rparr>"



section \<open>The registry\<close>

lemma typeID_kept: "typeID r T = Some i \<Longrightarrow> typeID (snd (getComTypeID U r)) T = Some i"
  by (auto simp: getComTypeID_def getComTypeID0_def split: option.splits)

lemma typeID_from: "typeID r T = Some i \<Longrightarrow> typeID (registry_from r us) T = Some i"
  unfolding registry_from_def
  by (induction us arbitrary: r) (simp_all add: typeID_kept)

lemma get_known: "typeID r T = Some i \<Longrightarrow> getComTypeID T r = (i, r)"
  by (simp add: getComTypeID_def)

lemma get_registers: "typeID (snd (getComTypeID T r)) T = Some (fst (getComTypeID T r))"
  by (auto simp: getComTypeID_def getComTypeID0_def split: option.splits)

lemma get_twice: "getComTypeID T (snd (getComTypeID T r)) = getComTypeID T r"
  by (auto simp: getComTypeID_def getComTypeID0_def split: option.splits)

lemma get_same_registry: "getComTypeID T r = (i, r) \<Longrightarrow> typeID r T = Some i"
proof (cases "typeID r T")
  case None
  assume "getComTypeID T r = (i, r)"
  with None have "r\<lparr>lastID := lastID r + 1, typeID := (typeID r)(T \<mapsto> lastID r)\<rparr> = r"
    by (auto simp: getComTypeID_def getComTypeID0_def)
  then have "typeID (r\<lparr>lastID := lastID r + 1, typeID := (typeID r)(T \<mapsto> lastID r)\<rparr>) T
               = typeID r T"
    by simp
  with None show ?thesis by simp
next
  case (Some j)
  assume "getComTypeID T r = (i, r)"
  with Some show ?thesis by (simp add: getComTypeID_def)
qed

lemma registry_after_snoc:
  "registry_after (ts @ [T]) = snd (getComTypeID T (registry_after ts))"
  by (simp add: registry_after_def registry_from_def)

lemma unat_of_nat_64: "n < 2 ^ 64 \<Longrightarrow> unat (of_nat n :: 64 word) = n"
  by (simp add: unat_of_nat)

lemma reg_inv_step:
  assumes inv: "reg_inv r S" and fin: "finite S" and bound: "card (insert T S) < 2 ^ 64"
  shows "reg_inv (snd (getComTypeID T r)) (insert T S)"
proof (cases "T \<in> S")
  case True
  then obtain i where "typeID r T = Some i" using inv by (auto simp: reg_inv_def)
  with inv True show ?thesis by (simp add: get_known insert_absorb)
next
  case False
  then have none: "typeID r T = None" using inv by (auto simp: reg_inv_def)
  have card: "card (insert T S) = Suc (card S)" using False fin by simp
  have small: "card S < 2 ^ 64" using bound card by simp
  have r': "snd (getComTypeID T r) = r\<lparr>lastID := lastID r + 1, typeID := (typeID r)(T \<mapsto> lastID r)\<rparr>"
    using none by (simp add: getComTypeID_def getComTypeID0_def)
  have u: "unat (lastID r) = card S" using inv small by (simp add: reg_inv_def unat_of_nat_64)
  have fresh: "\<And>U. U \<in> S \<Longrightarrow> typeID r U \<noteq> Some (lastID r)"
  proof
    fix U assume "U \<in> S" and "typeID r U = Some (lastID r)"
    then have "unat (lastID r) < card S" using inv by (simp add: reg_inv_def)
    then show False using u by simp
  qed
  have injS: "inj_on (typeID r) S" using inv by (simp add: reg_inv_def)
  have "inj_on ((typeID r)(T \<mapsto> lastID r)) (insert T S)"
  proof (rule inj_onI)
    fix x y
    assume x: "x \<in> insert T S" and y: "y \<in> insert T S"
      and eq: "((typeID r)(T \<mapsto> lastID r)) x = ((typeID r)(T \<mapsto> lastID r)) y"
    show "x = y"
    proof (cases "x = T")
      case xT: True
      show ?thesis
      proof (cases "y = T")
        case True with xT show ?thesis by simp
      next
        case False
        with y have "y \<in> S" by simp
        from fresh [OF this] eq xT False show ?thesis by simp
      qed
    next
      case xT: False
      with x have xS: "x \<in> S" by simp
      show ?thesis
      proof (cases "y = T")
        case True
        from fresh [OF xS] eq xT True show ?thesis by simp
      next
        case False
        with y have "y \<in> S" by simp
        with xS injS eq xT False show ?thesis by (simp add: inj_on_def)
      qed
    qed
  qed
  moreover have "\<forall>U i. ((typeID r)(T \<mapsto> lastID r)) U = Some i \<longrightarrow> unat i < Suc (card S)"
    using inv u by (auto simp: reg_inv_def less_Suc_eq)
  moreover have "lastID r + 1 = of_nat (Suc (card S))" using inv by (simp add: reg_inv_def)
  moreover have "dom ((typeID r)(T \<mapsto> lastID r)) = insert T S" using inv by (auto simp: reg_inv_def)
  moreover have "lastID (snd (getComTypeID T r)) = lastID r + 1"
    and "typeID (snd (getComTypeID T r)) = (typeID r)(T \<mapsto> lastID r)"
    by (simp_all add: r')
  ultimately show ?thesis unfolding reg_inv_def card by presburger
qed

lemma reg_inv_after: "card (set ts) < 2 ^ 64 \<Longrightarrow> reg_inv (registry_after ts) (set ts)"
proof (induction ts rule: rev_induct)
  case Nil
  then show ?case by (simp add: reg_inv_def registry_after_def registry_from_def registry_start_def)
next
  case (snoc T ts)
  have "card (set ts) \<le> card (set (ts @ [T]))" by (simp add: card_mono subset_insertI)
  with snoc have "reg_inv (registry_after ts) (set ts)" by simp
  from reg_inv_step [OF this, of T] snoc.prems show ?case
    by (simp add: registry_after_snoc)
qed

text \<open>
  C1. A process, which reaches the counter through the template only, calls
  \<^verbatim>\<open>getComTypeID<T>()\<close> for the types \<open>ts\<close>, in this order, then for \<open>A\<close>. Whatever calls \<open>us\<close> follow, a later call for \<open>A\<close> returns the same identifier;
  a call for a different type \<open>B\<close> returns a different one; and if \<open>A\<close> has not been
  seen before, its identifier is the current value of the one counter \<open>lastID\<close>, which
  is the number of distinct types seen so far (so the identifiers are 0, 1, 2, ... in
  the order of first use). The counter is a 64-bit \<^verbatim>\<open>size_t\<close>: the statement is for
  fewer than \<open>2 ^ 64\<close> distinct types.
\<close>

theorem getComTypeID_stable_distinct_sequential:
  assumes "card (insert A (insert B (set ts))) < 2 ^ 64"
  shows "fst (getComTypeID A (registry_from (snd (getComTypeID A (registry_after ts))) us))
           = fst (getComTypeID A (registry_after ts))
       \<and> (A \<noteq> B \<longrightarrow>
            fst (getComTypeID A (registry_after ts))
              \<noteq> fst (getComTypeID B (snd (getComTypeID A (registry_after ts)))))
       \<and> (A \<notin> set ts \<longrightarrow>
            fst (getComTypeID A (registry_after ts)) = lastID (registry_after ts)
          \<and> unat (fst (getComTypeID A (registry_after ts))) = card (set ts))"
proof (intro conjI impI)
  let ?r = "registry_after ts"
  show "fst (getComTypeID A (registry_from (snd (getComTypeID A ?r)) us)) = fst (getComTypeID A ?r)"
    using typeID_from [OF get_registers, of A ?r us] by (simp add: get_known)
next
  let ?r = "registry_after ts"
  assume ne: "A \<noteq> B"
  have "reg_inv (registry_after (ts @ [A, B])) (set (ts @ [A, B]))"
    using assms by (intro reg_inv_after) (simp add: insert_commute)
  then have inj: "inj_on (typeID (registry_after (ts @ [A, B]))) (set (ts @ [A, B]))"
    by (simp add: reg_inv_def)
  have r2: "registry_after (ts @ [A, B]) = snd (getComTypeID B (snd (getComTypeID A ?r)))"
    using registry_after_snoc [of "ts @ [A]" B] by (simp add: registry_after_snoc)
  have a: "typeID (registry_after (ts @ [A, B])) A = Some (fst (getComTypeID A ?r))"
    unfolding r2 by (rule typeID_kept) (rule get_registers)
  have b: "typeID (registry_after (ts @ [A, B])) B
             = Some (fst (getComTypeID B (snd (getComTypeID A ?r))))"
    unfolding r2 by (rule get_registers)
  show "fst (getComTypeID A ?r) \<noteq> fst (getComTypeID B (snd (getComTypeID A ?r)))"
    using inj a b ne by (auto simp: inj_on_def)
next
  let ?r = "registry_after ts"
  assume new: "A \<notin> set ts"
  have "card (set ts) \<le> card (insert A (insert B (set ts)))"
    by (intro card_mono) auto
  then have small: "card (set ts) < 2 ^ 64" using assms by simp
  then have inv: "reg_inv ?r (set ts)" by (rule reg_inv_after)
  then have "typeID ?r A = None" using new by (auto simp: reg_inv_def)
  then show "fst (getComTypeID A ?r) = lastID ?r"
    by (simp add: getComTypeID_def getComTypeID0_def)
  then show "unat (fst (getComTypeID A ?r)) = card (set ts)"
    using inv small by (simp add: reg_inv_def unat_of_nat_64)
qed

theorem getComTypeID_stable_distinct_sequential_witness:
  "card (insert (2::nat) (insert 0 (set [0, 1]))) < 2 ^ 64
   \<and> fst (getComTypeID (2::nat)
            (registry_from (snd (getComTypeID (2::nat) (registry_after [0, 1 :: nat]))) [1, 3, 2]))
       = fst (getComTypeID (2::nat) (registry_after [0, 1 :: nat]))
   \<and> fst (getComTypeID (2::nat) (registry_after [0, 1 :: nat]))
       \<noteq> fst (getComTypeID (0::nat) (snd (getComTypeID (2::nat) (registry_after [0, 1 :: nat]))))
   \<and> fst (getComTypeID (2::nat) (registry_after [0, 1 :: nat])) = lastID (registry_after [0, 1 :: nat])
   \<and> unat (fst (getComTypeID (2::nat) (registry_after [0, 1 :: nat]))) = card (set [0, 1 :: nat])
   \<and> fst (getComTypeID (2::nat) (registry_after [0, 1 :: nat])) = 2"
proof -
  have h: "card (insert (2::nat) (insert 0 (set [0, 1]))) < 2 ^ 64" by simp
  have n: "(2::nat) \<noteq> 0" "(2::nat) \<notin> set [0, 1]" by simp_all
  have v: "fst (getComTypeID (2::nat) (registry_after [0, 1 :: nat])) = 2"
    by (simp add: registry_after_def registry_from_def registry_start_def getComTypeID_def
        getComTypeID0_def)
  from getComTypeID_stable_distinct_sequential [OF h, of "[1, 3, 2]"] h n v
  show ?thesis by blast
qed

section \<open>The stores\<close>

lemma store_lookup_new [simp]:
  "store_lookup (snd (store_new x h)) a = (if a = length h then Some x else store_lookup h a)"
  by (auto simp: store_lookup_def store_new_def nth_append)

lemma store_lookup_put [simp]:
  "store_lookup (store_put a x h) b = (if b = a \<and> a < length h then Some x else store_lookup h b)"
  by (auto simp: store_lookup_def store_put_def)

lemma store_lookup_delete [simp]:
  "store_lookup (store_delete a h) b = (if b = a then None else store_lookup h b)"
  by (auto simp: store_lookup_def store_delete_def)

lemma store_lookup_Some_less: "store_lookup h a = Some x \<Longrightarrow> a < length h"
  by (auto simp: store_lookup_def split: if_splits)

lemma store_lookup_length [simp]: "store_lookup h (length h) = None"
  by (simp add: store_lookup_def)

lemma store_put_put [simp]: "store_put a x (store_put a y h) = store_put a x h"
  by (simp add: store_put_def)

lemma length_store_put [simp]: "length (store_put a x h) = length h"
  by (simp add: store_put_def)

lemma length_store_delete [simp]: "length (store_delete a h) = length h"
  by (simp add: store_delete_def)

lemma store_lookup_snoc [simp]:
  "store_lookup (h @ [c]) a = (if a = length h then c else store_lookup h a)"
  by (auto simp: store_lookup_def nth_append)

lemma world_reg_eq: "(w\<lparr>reg := r\<rparr> = w) = (reg w = r)"
  by (metis world.select_convs(1) world.surjective world.update_convs(1))

section \<open>The configuration store\<close>

text \<open>
  C10. After \<^verbatim>\<open>setConfig<bool>(f, k, b)\<close>, \<^verbatim>\<open>getConfig<bool>(f, k)\<close> on the same store
  returns \<open>b\<close> and does not throw. The setter stores \<^verbatim>\<open>"true"\<close> or \<^verbatim>\<open>"false"\<close>; the
  getter reads \<^verbatim>\<open>"true"\<close>, \<^verbatim>\<open>"True"\<close>, \<^verbatim>\<open>"1"\<close> as true and \<^verbatim>\<open>"false"\<close>, \<^verbatim>\<open>"False"\<close>,
  \<^verbatim>\<open>"0"\<close> as false, and throws for any other stored string, for a missing section and
  for a missing key.
\<close>

theorem bool_config_roundtrip:
  "getConfig_bool f k (setConfig_bool f k b cm) = Inr b
   \<and> (case m_configData (setConfig_bool f k b cm) f of
        None \<Rightarrow> False
      | Some sec \<Rightarrow> sec k = Some (if b then ''true'' else ''false''))
   \<and> getConfig_bool f k cm =
       (case m_configData cm f of
          None \<Rightarrow> Inl (runtime_error (''Filter not found: '' @ f))
        | Some sec \<Rightarrow>
            (case sec k of
               None \<Rightarrow> Inl (runtime_error (''Key not found: '' @ k @ '' in filter: '' @ f))
             | Some v \<Rightarrow>
                 if v \<in> {''true'', ''True'', ''1''} then Inr True
                 else if v \<in> {''false'', ''False'', ''0''} then Inr False
                 else Inl (runtime_error
                             (''Invalid boolean value for key: '' @ k @ '' in filter: '' @ f))))"
  by (simp add: getConfig_bool_def setConfig_bool_def split: option.splits)

section \<open>Entities\<close>

text \<open>
  C6. On a live entity, \<^verbatim>\<open>destroy()\<close> clears the active flag, so that \<^verbatim>\<open>isActive()\<close>
  returns false afterwards; a second \<^verbatim>\<open>destroy()\<close> leaves the state as the first left
  it; and nothing else changes: the owned sequence, the lookup table and the bitset of
  the entity, every other entity, the components, the registry and the rest of the
  program are as before.
\<close>

theorem destroy_clears_flag_only:
  assumes "store_lookup (ents w) e = Some ent"
  shows "\<exists>w'. FDS_Entity_destroy e w = Inr w'
           \<and> FDS_Entity_isActive e w' = Inr False
           \<and> FDS_Entity_destroy e w' = Inr w'
           \<and> store_lookup (ents w') e = Some (ent\<lparr>m_isActive := False\<rparr>)
           \<and> m_components (ent\<lparr>m_isActive := False\<rparr>) = m_components ent
           \<and> m_comArray (ent\<lparr>m_isActive := False\<rparr>) = m_comArray ent
           \<and> m_comBitSet (ent\<lparr>m_isActive := False\<rparr>) = m_comBitSet ent
           \<and> (\<forall>e'. e' \<noteq> e \<longrightarrow> store_lookup (ents w') e' = store_lookup (ents w) e')
           \<and> comps w' = comps w \<and> reg w' = reg w \<and> user w' = user w"
  using assms store_lookup_Some_less [OF assms]
  by (simp add: FDS_Entity_destroy_def FDS_Entity_isActive_def)

theorem destroy_clears_flag_only_witness:
  "store_lookup (ents two_entities) 1
     = Some \<lparr>m_isActive = True, m_components = [2], m_comArray = (\<lambda>i. None), m_comBitSet = 0\<rparr>
   \<and> FDS_Entity_isActive 1 two_entities = Inr True
   \<and> (\<exists>w'. FDS_Entity_destroy 1 two_entities = Inr w'
          \<and> FDS_Entity_isActive 1 w' = Inr False
          \<and> FDS_Entity_destroy 1 w' = Inr w'
          \<and> store_lookup (ents w') 1
               = Some \<lparr>m_isActive = False, m_components = [2], m_comArray = (\<lambda>i. None),
                       m_comBitSet = 0\<rparr>
          \<and> store_lookup (ents w') 0 = store_lookup (ents two_entities) 0
          \<and> comps w' = comps two_entities)"
proof -
  have h: "store_lookup (ents two_entities) 1
     = Some \<lparr>m_isActive = True, m_components = [2], m_comArray = (\<lambda>i. None), m_comBitSet = 0\<rparr>"
    by (simp add: two_entities_def store_lookup_def)
  have a: "FDS_Entity_isActive 1 two_entities = Inr True"
    using h by (simp add: FDS_Entity_isActive_def)
  have n: "(0::nat) \<noteq> 1" by simp
  from destroy_clears_flag_only [OF h] obtain w' where
    "FDS_Entity_destroy 1 two_entities = Inr w'" "FDS_Entity_isActive 1 w' = Inr False"
    "FDS_Entity_destroy 1 w' = Inr w'"
    "store_lookup (ents w') 1
       = Some (\<lparr>m_isActive = True, m_components = [2], m_comArray = (\<lambda>i. None),
                m_comBitSet = 0\<rparr>\<lparr>m_isActive := False\<rparr>)"
    "\<forall>e'. e' \<noteq> 1 \<longrightarrow> store_lookup (ents w') e' = store_lookup (ents two_entities) e'"
    "comps w' = comps two_entities"
    by blast
  with n have "FDS_Entity_destroy 1 two_entities = Inr w'
          \<and> FDS_Entity_isActive 1 w' = Inr False
          \<and> FDS_Entity_destroy 1 w' = Inr w'
          \<and> store_lookup (ents w') 1
               = Some \<lparr>m_isActive = False, m_components = [2], m_comArray = (\<lambda>i. None),
                       m_comBitSet = 0\<rparr>
          \<and> store_lookup (ents w') 0 = store_lookup (ents two_entities) 0
          \<and> comps w' = comps two_entities"
    by simp
  with h a show ?thesis by blast
qed

lemma addComponent_eq:
  assumes live: "store_lookup (ents w) e = Some ent"
    and ty: "getComTypeID T (reg w) = (i, r)"
    and cap: "unat i < FDS_MAX_COM"
  shows "FDS_Entity_addComponent vt T args e w =
           Inr (length (comps w),
                init (vt T) (length (comps w))
                  (w\<lparr>reg := r,
                     ents := store_put e
                               (ent\<lparr>m_components := m_components ent @ [length (comps w)],
                                    m_comArray := (m_comArray ent)(unat i := Some (length (comps w))),
                                    m_comBitSet := set_bit (unat i) (m_comBitSet ent)\<rparr>)
                               (ents w),
                     comps := comps w @ [Some \<lparr>owner = Some e, dyn_type = T, members = args\<rparr>]\<rparr>))"
proof -
  have "getComTypeID T r = (i, r)"
    using get_twice [of T "reg w"] ty by simp
  with live ty cap show ?thesis
    by (simp add: FDS_Entity_addComponent_def store_new_def store_put_def Let_def)
qed

lemma attached_after_table:
  assumes live: "store_lookup (ents w) e = Some ent"
    and ty: "getComTypeID T (reg w) = (i, r)"
    and cap: "unat i < FDS_MAX_COM"
    and w1: "w1 = w\<lparr>reg := r,
                     ents := store_put e
                               (ent\<lparr>m_components := m_components ent @ [length (comps w)],
                                    m_comArray := (m_comArray ent)(unat i := Some (length (comps w))),
                                    m_comBitSet := set_bit (unat i) (m_comBitSet ent)\<rparr>)
                               (ents w),
                     comps := comps w @ [Some \<lparr>owner = Some e, dyn_type = T, members = args\<rparr>]\<rparr>"
  shows "attached T e (length (comps w)) w1"
proof -
  have again: "getComTypeID T r = (i, r)"
    using get_twice [of T "reg w"] ty by simp
  have lt: "e < length (ents w)" using live by (rule store_lookup_Some_less)
  have cap32: "unat i < 32" using cap by (simp add: FDS_MAX_COM_def)
  show ?thesis
    unfolding attached_def w1
    using again lt cap cap32
    by (simp add: FDS_Entity_hasComponent_def FDS_Entity_getComponent_def bit_set_bit_iff)
qed

lemma attached_iff:
  "attached T e c w =
     (\<exists>ent i x. store_lookup (ents w) e = Some ent \<and> typeID (reg w) T = Some i \<and>
        unat i < FDS_MAX_COM \<and> bit (m_comBitSet ent) (unat i) \<and>
        m_comArray ent (unat i) = Some c \<and>
        store_lookup (comps w) c = Some x \<and> owner x = Some e)"
proof
  assume a: "attached T e c w"
  then obtain ent where ent: "store_lookup (ents w) e = Some ent"
    by (auto simp: attached_def FDS_Entity_hasComponent_def split: option.splits)
  obtain i r where ir: "getComTypeID T (reg w) = (i, r)" by (cases "getComTypeID T (reg w)")
  from a ent ir have cap: "unat i < FDS_MAX_COM" and b: "bit (m_comBitSet ent) (unat i)"
    and same: "w\<lparr>reg := r\<rparr> = w"
    by (auto simp: attached_def FDS_Entity_hasComponent_def split: if_splits)
  from same have "reg w = r" by (simp add: world_reg_eq)
  with ir have ty: "typeID (reg w) T = Some i" by (simp add: get_same_registry)
  from a ent ir cap have slot: "m_comArray ent (unat i) = Some c"
    by (auto simp: attached_def FDS_Entity_getComponent_def split: option.splits)
  from a obtain x where "store_lookup (comps w) c = Some x" "owner x = Some e"
    by (auto simp: attached_def split: option.splits)
  with ent ty cap b slot
  show "\<exists>ent i x. store_lookup (ents w) e = Some ent \<and> typeID (reg w) T = Some i \<and>
        unat i < FDS_MAX_COM \<and> bit (m_comBitSet ent) (unat i) \<and>
        m_comArray ent (unat i) = Some c \<and>
        store_lookup (comps w) c = Some x \<and> owner x = Some e" by blast
next
  assume "\<exists>ent i x. store_lookup (ents w) e = Some ent \<and> typeID (reg w) T = Some i \<and>
        unat i < FDS_MAX_COM \<and> bit (m_comBitSet ent) (unat i) \<and>
        m_comArray ent (unat i) = Some c \<and>
        store_lookup (comps w) c = Some x \<and> owner x = Some e"
  then show "attached T e c w"
    by (auto simp: attached_def FDS_Entity_hasComponent_def FDS_Entity_getComponent_def get_known)
qed

lemma attached_user [simp]: "attached T e c (w\<lparr>user := u\<rparr>) = attached T e c w"
  by (simp add: attached_iff)

lemma base_class_keeps_layout: "hooks_keep_layout (\<lambda>T. FDS_Component_vtable)"
  by (simp add: hooks_keep_layout_def keeps_layout_def FDS_Component_vtable_def)

lemma recorder_keeps_layout: "hooks_keep_layout recorder"
  by (simp add: hooks_keep_layout_def keeps_layout_def layout_def recorder_def)

lemma recorder_init_attached:
  "attached T e c w \<Longrightarrow> attached T e c (init (recorder U) c' w)"
  by (simp add: recorder_def)

lemma one_entity_live: "store_lookup (ents one_entity) 0 = Some FDS_Entity_new"
  by (simp add: one_entity_def store_lookup_def)

lemma one_entity_add:
  "FDS_Entity_addComponent recorder 7 () 0 one_entity = Inr (0, one_component)"
proof -
  have ir: "getComTypeID (7::nat) (reg one_entity)
              = (0, \<lparr>lastID = 1, typeID = (\<lambda>T. None)(7 \<mapsto> 0)\<rparr>)"
    by (simp add: one_entity_def getComTypeID_def getComTypeID0_def registry_start_def)
  have cap: "unat (0 :: 64 word) < FDS_MAX_COM" by (simp add: FDS_MAX_COM_def)
  show ?thesis
    unfolding addComponent_eq [OF one_entity_live ir cap]
    by (simp add: one_entity_def one_component_def recorder_def FDS_Entity_new_def store_put_def)
qed

text \<open>
  C2. On a live entity \<open>e\<close> and for a type within capacity, \<^verbatim>\<open>addComponent<T>(args...)\<close>
  returns a new object \<open>com\<close> and ends with the call of \<^verbatim>\<open>init()\<close> on it, in a state
  \<open>w1\<close> in which everything else has been done: \<open>com\<close> is constructed from the
  arguments with dynamic type \<open>T\<close>, its \<open>owner\<close> is \<open>e\<close>, it is the last element of the
  owned sequence of \<open>e\<close>, and \<^verbatim>\<open>hasComponent<T>()\<close> is true and \<^verbatim>\<open>getComponent<T>()\<close>
  returns \<open>com\<close> (\<open>attached\<close>). So \<^verbatim>\<open>init()\<close> runs last and sees the owner set. Whenever
  \<^verbatim>\<open>init()\<close> does not undo this, it holds after \<^verbatim>\<open>addComponent\<close> as well.
\<close>

theorem addComponent_sets_up_then_init:
  assumes live: "store_lookup (ents w) e = Some ent"
    and cap: "unat (fst (getComTypeID T (reg w))) < FDS_MAX_COM"
  shows "(\<exists>com w1 ent1.
            FDS_Entity_addComponent vt T args e w = Inr (com, init (vt T) com w1)
          \<and> store_lookup (comps w) com = None
          \<and> store_lookup (comps w1) com = Some \<lparr>owner = Some e, dyn_type = T, members = args\<rparr>
          \<and> store_lookup (ents w1) e = Some ent1
          \<and> m_components ent1 = m_components ent @ [com]
          \<and> attached T e com w1)
       \<and> ((\<forall>c w0. attached T e c w0 \<longrightarrow> attached T e c (init (vt T) c w0)) \<longrightarrow>
           (\<exists>com w'. FDS_Entity_addComponent vt T args e w = Inr (com, w') \<and> attached T e com w'))"
proof -
  obtain i r where ir: "getComTypeID T (reg w) = (i, r)" by (cases "getComTypeID T (reg w)")
  with cap have c: "unat i < FDS_MAX_COM" by simp
  let ?com = "length (comps w)"
  let ?ent1 = "ent\<lparr>m_components := m_components ent @ [?com],
                   m_comArray := (m_comArray ent)(unat i := Some ?com),
                   m_comBitSet := set_bit (unat i) (m_comBitSet ent)\<rparr>"
  let ?w1 = "w\<lparr>reg := r, ents := store_put e ?ent1 (ents w),
               comps := comps w @ [Some \<lparr>owner = Some e, dyn_type = T, members = args\<rparr>]\<rparr>"
  have run: "FDS_Entity_addComponent vt T args e w = Inr (?com, init (vt T) ?com ?w1)"
    by (rule addComponent_eq [OF live ir c])
  have att: "attached T e ?com ?w1"
    by (rule attached_after_table [OF live ir c refl])
  have lt: "e < length (ents w)" using live by (rule store_lookup_Some_less)
  have fresh: "store_lookup (comps w) ?com = None" by simp
  have obj: "store_lookup (comps ?w1) ?com = Some \<lparr>owner = Some e, dyn_type = T, members = args\<rparr>"
    by simp
  have ent1: "store_lookup (ents ?w1) e = Some ?ent1" using lt by simp
  have seq: "m_components ?ent1 = m_components ent @ [?com]" by simp
  from run fresh obj ent1 seq att show ?thesis by blast
qed

theorem addComponent_sets_up_then_init_witness:
  "store_lookup (ents one_entity) 0 = Some FDS_Entity_new
   \<and> unat (fst (getComTypeID (7::nat) (reg one_entity))) < FDS_MAX_COM
   \<and> FDS_Entity_addComponent recorder 7 () 0 one_entity = Inr (0, one_component)
   \<and> user one_component = [(Init, 7, 0)]
   \<and> attached 7 0 0 one_component
   \<and> FDS_Entity_hasComponent 7 0 one_component = Inr (True, one_component)
   \<and> FDS_Entity_getComponent 7 0 one_component = Inr (0, one_component)
   \<and> store_lookup (comps one_component) 0 = Some \<lparr>owner = Some 0, dyn_type = 7, members = ()\<rparr>"
proof -
  have h2: "unat (fst (getComTypeID (7::nat) (reg one_entity))) < FDS_MAX_COM"
    by (simp add: one_entity_def getComTypeID_def getComTypeID0_def registry_start_def
        FDS_MAX_COM_def)
  have kept: "\<forall>c w0. attached (7::nat) 0 c w0
                \<longrightarrow> attached 7 0 c (init (recorder 7) c (w0 :: recorded))"
    by (simp add: recorder_init_attached)
  from addComponent_sets_up_then_init [OF one_entity_live h2, of recorder "()"] kept
  obtain com w' where r: "FDS_Entity_addComponent recorder 7 () 0 one_entity = Inr (com, w')"
    and a: "attached 7 0 com w'" by blast
  from r have "com = 0" and "w' = one_component" unfolding one_entity_add by simp_all
  with a have att: "attached 7 0 0 one_component" by simp
  then have "FDS_Entity_hasComponent 7 0 one_component = Inr (True, one_component)"
    and "FDS_Entity_getComponent 7 0 one_component = Inr (0, one_component)"
    by (simp_all add: attached_def)
  moreover have "user one_component = [(Init, 7, 0)]"
    and "store_lookup (comps one_component) 0
           = Some \<lparr>owner = Some 0, dyn_type = 7, members = ()\<rparr>"
    by (simp_all add: one_component_def store_lookup_def)
  moreover note one_entity_live h2 one_entity_add att
  ultimately show ?thesis by blast
qed

section \<open>The dispatch loops\<close>

lemma store_lookup_map: "store_lookup (map (map_option f) h) a = map_option f (store_lookup h a)"
  by (simp add: store_lookup_def)

lemma layout_ents:
  assumes "layout w' = layout w"
  shows "map_option m_components (store_lookup (ents w') e)
           = map_option m_components (store_lookup (ents w) e)"
proof -
  from assms have "map (map_option m_components) (ents w') = map (map_option m_components) (ents w)"
    by (simp add: layout_def)
  then have "store_lookup (map (map_option m_components) (ents w')) e
               = store_lookup (map (map_option m_components) (ents w)) e"
    by simp
  then show ?thesis by (simp only: store_lookup_map)
qed

lemma layout_comps:
  assumes "layout w' = layout w"
  shows "map_option dyn_type (store_lookup (comps w') c)
           = map_option dyn_type (store_lookup (comps w) c)"
proof -
  from assms have "map (map_option dyn_type) (comps w') = map (map_option dyn_type) (comps w)"
    by (simp add: layout_def)
  then have "store_lookup (map (map_option dyn_type) (comps w')) c
               = store_lookup (map (map_option dyn_type) (comps w)) c"
    by simp
  then show ?thesis by (simp only: store_lookup_map)
qed

lemma layout_live:
  assumes "layout w' = layout w"
  shows "(store_lookup (comps w') c = None) = (store_lookup (comps w) c = None)"
  using layout_comps [OF assms, of c] by (metis option.map_disc_iff)

lemma components_of_cong: "layout w' = layout w \<Longrightarrow> components_of w' e = components_of w e"
  using layout_ents [of w' w e] by (auto simp: components_of_def split: option.splits)

lemma entity_owned_cong:
  assumes "layout w' = layout w"
  shows "entity_owned w' e = entity_owned w e"
  using layout_ents [OF assms, of e] layout_live [OF assms]
  by (auto simp: entity_owned_def list_all_iff split: option.splits)

lemma virtual_call_layout:
  assumes "\<forall>T. keeps_layout (sel (vt T))"
  shows "layout (virtual_call sel vt w c) = layout w"
  using assms by (simp add: virtual_call_def keeps_layout_def split: option.splits)

lemma foldl_virtual_call_layout:
  assumes "\<forall>T. keeps_layout (sel (vt T))"
  shows "layout (foldl (virtual_call sel vt) w cs) = layout w"
  by (induction cs arbitrary: w) (simp_all add: virtual_call_layout [OF assms])

lemma for_components_fold:
  assumes keep: "\<forall>T. keeps_layout (sel (vt T))"
    and live: "store_lookup (ents w) e = Some ent"
    and same: "m_components ent = cs0"
    and owned: "list_all (\<lambda>c. store_lookup (comps w) c \<noteq> None) cs"
  shows "for_components sel vt e cs0 cs w = Inr (foldl (virtual_call sel vt) w cs)"
  using live same owned
proof (induction cs arbitrary: w ent)
  case Nil
  then show ?case by simp
next
  case (Cons c cs)
  from Cons.prems obtain x where x: "store_lookup (comps w) c = Some x" by auto
  let ?w' = "sel (vt (dyn_type x)) c w"
  have vc: "virtual_call sel vt w c = ?w'" using x by (simp add: virtual_call_def)
  have lay: "layout ?w' = layout w"
    using virtual_call_layout [OF keep, of w c] vc by simp
  from layout_ents [OF lay, of e] Cons.prems(1,2)
  obtain ent' where ent': "store_lookup (ents ?w') e = Some ent'" "m_components ent' = cs0"
    by (cases "store_lookup (ents ?w') e") auto
  have "list_all (\<lambda>c. store_lookup (comps ?w') c \<noteq> None) cs"
    using Cons.prems(3) layout_live [OF lay] by (simp add: list_all_iff)
  with ent' have "for_components sel vt e cs0 cs ?w' = Inr (foldl (virtual_call sel vt) ?w' cs)"
    by (intro Cons.IH)
  then show ?case using x ent' vc by simp
qed

lemma entity_loop_fold:
  assumes keep: "\<forall>T. keeps_layout (sel (vt T))" and owned: "entity_owned w e"
  shows "(case store_lookup (ents w) e of
            None \<Rightarrow> Inl Dangling
          | Some ent \<Rightarrow> for_components sel vt e (m_components ent) (m_components ent) w)
         = Inr (foldl (virtual_call sel vt) w (components_of w e))"
proof -
  from owned obtain ent where ent: "store_lookup (ents w) e = Some ent"
    and all: "list_all (\<lambda>c. store_lookup (comps w) c \<noteq> None) (m_components ent)"
    by (auto simp: entity_owned_def split: option.splits)
  show ?thesis
    using for_components_fold [OF keep ent refl all] ent by (simp add: components_of_def)
qed

lemma for_entities_fold:
  assumes keep: "\<forall>T. keeps_layout (sel (vt T))"
    and step: "\<And>e w. entity_owned w e \<Longrightarrow>
                 f e w = Inr (foldl (virtual_call sel vt) w (components_of w e))"
    and owned: "list_all (entity_owned w) es"
  shows "for_entities f es w =
           Inr (foldl (virtual_call sel vt) w (concat (map (components_of w) es)))"
  using owned
proof (induction es arbitrary: w)
  case Nil
  then show ?case by simp
next
  case (Cons e es)
  let ?w' = "foldl (virtual_call sel vt) w (components_of w e)"
  have lay: "layout ?w' = layout w"
    by (rule foldl_virtual_call_layout [OF keep])
  have "list_all (entity_owned ?w') es"
    using Cons.prems entity_owned_cong [OF lay] by (simp add: list_all_iff)
  then have "for_entities f es ?w' =
               Inr (foldl (virtual_call sel vt) ?w' (concat (map (components_of ?w') es)))"
    by (rule Cons.IH)
  moreover have "map (components_of ?w') es = map (components_of w) es"
    using components_of_cong [OF lay] by simp
  moreover have "f e w = Inr ?w'" using Cons.prems by (simp add: step)
  ultimately show ?case by simp
qed

lemma entity_update_fold:
  assumes "hooks_keep_layout vt" and "entity_owned w e"
  shows "FDS_Entity_update vt e w = Inr (foldl (virtual_call update vt) w (components_of w e))"
  unfolding FDS_Entity_update_def
  using assms by (intro entity_loop_fold) (simp_all add: hooks_keep_layout_def)

lemma entity_draw_fold:
  assumes "hooks_keep_layout vt" and "entity_owned w e"
  shows "FDS_Entity_draw vt e w = Inr (foldl (virtual_call draw vt) w (components_of w e))"
  unfolding FDS_Entity_draw_def
  using assms by (intro entity_loop_fold) (simp_all add: hooks_keep_layout_def)

lemma addComponent_appends:
  assumes keep: "keeps_layout (init (vt T))"
    and run: "FDS_Entity_addComponent vt T args e w = Inr (c, w')"
  shows "components_of w' e = components_of w e @ [c]"
proof -
  from run obtain ent where ent: "store_lookup (ents w) e = Some ent"
    by (auto simp: FDS_Entity_addComponent_def split: option.splits)
  obtain i r where ir: "getComTypeID T (reg w) = (i, r)" by (cases "getComTypeID T (reg w)")
  have cap: "unat i < FDS_MAX_COM"
  proof (rule ccontr)
    assume "\<not> unat i < FDS_MAX_COM"
    with run ent ir show False
      by (simp add: FDS_Entity_addComponent_def store_new_def Let_def)
  qed
  let ?c = "length (comps w)"
  let ?w1 = "w\<lparr>reg := r,
               ents := store_put e
                         (ent\<lparr>m_components := m_components ent @ [?c],
                              m_comArray := (m_comArray ent)(unat i := Some ?c),
                              m_comBitSet := set_bit (unat i) (m_comBitSet ent)\<rparr>) (ents w),
               comps := comps w @ [Some \<lparr>owner = Some e, dyn_type = T, members = args\<rparr>]\<rparr>"
  from run have "Inr (?c, init (vt T) ?c ?w1) = (Inr (c, w') :: fault + _)"
    by (simp only: addComponent_eq [OF ent ir cap])
  then have c: "c = ?c" and w': "w' = init (vt T) ?c ?w1" by auto
  have lay: "layout w' = layout ?w1" unfolding w' using keep by (simp add: keeps_layout_def)
  have lt: "e < length (ents w)" using ent by (rule store_lookup_Some_less)
  show ?thesis
    using components_of_cong [OF lay, of e] ent lt c by (simp add: components_of_def)
qed

lemma addEntity_appends:
  "FDS_EntityManager_addEntity mgr w = (e, mgr', w') \<Longrightarrow> m_entities mgr' = m_entities mgr @ [e]"
  by (auto simp: FDS_EntityManager_addEntity_def store_new_def)

text \<open>
  C4. Let the hooks keep the layout (the loops are undefined otherwise) and the owning
  pointers point to live objects.
  Then \<^verbatim>\<open>update()\<close> of an entity is the \<^verbatim>\<open>update()\<close> hooks of its components, each found
  by its dynamic type, applied one after another in the order of the owned sequence;
  \<^verbatim>\<open>update()\<close> of a manager is the same over the components of its entities, entity
  after entity in the order of \<open>m_entities\<close>; and likewise for \<^verbatim>\<open>draw()\<close>. Nothing is
  assumed about the active flags: no entity and no component is skipped. The two orders
  are the orders of addition and of creation: \<^verbatim>\<open>addComponent\<close> and \<^verbatim>\<open>addEntity\<close>
  append.
\<close>

theorem dispatch_in_insertion_order:
  assumes keep: "hooks_keep_layout vt"
    and ent: "entity_owned w e"
    and mgr: "manager_owned mgr w"
  shows "FDS_Entity_update vt e w = Inr (foldl (virtual_call update vt) w (components_of w e))
       \<and> FDS_Entity_draw vt e w = Inr (foldl (virtual_call draw vt) w (components_of w e))
       \<and> FDS_EntityManager_update vt mgr w =
           Inr (foldl (virtual_call update vt) w (concat (map (components_of w) (m_entities mgr))))
       \<and> FDS_EntityManager_draw vt mgr w =
           Inr (foldl (virtual_call draw vt) w (concat (map (components_of w) (m_entities mgr))))
       \<and> (\<forall>T args c w'. FDS_Entity_addComponent vt T args e w = Inr (c, w')
             \<longrightarrow> components_of w' e = components_of w e @ [c])
       \<and> (\<forall>e' mgr' w'. FDS_EntityManager_addEntity mgr w = (e', mgr', w')
             \<longrightarrow> m_entities mgr' = m_entities mgr @ [e'])"
proof -
  have ku: "\<forall>T. keeps_layout (update (vt T))" and kd: "\<forall>T. keeps_layout (draw (vt T))"
    using keep by (simp_all add: hooks_keep_layout_def)
  have mu: "FDS_EntityManager_update vt mgr w =
           Inr (foldl (virtual_call update vt) w (concat (map (components_of w) (m_entities mgr))))"
    unfolding FDS_EntityManager_update_def
    using mgr by (intro for_entities_fold [OF ku entity_update_fold [OF keep]])
      (simp_all add: manager_owned_def)
  have md: "FDS_EntityManager_draw vt mgr w =
           Inr (foldl (virtual_call draw vt) w (concat (map (components_of w) (m_entities mgr))))"
    unfolding FDS_EntityManager_draw_def
    using mgr by (intro for_entities_fold [OF kd entity_draw_fold [OF keep]])
      (simp_all add: manager_owned_def)
  have ac: "\<forall>T args c w'. FDS_Entity_addComponent vt T args e w = Inr (c, w')
             \<longrightarrow> components_of w' e = components_of w e @ [c]"
  proof (intro allI impI)
    fix T args c w'
    assume run: "FDS_Entity_addComponent vt T args e w = Inr (c, w')"
    have "keeps_layout (init (vt T))" using keep by (simp add: hooks_keep_layout_def)
    then show "components_of w' e = components_of w e @ [c]"
      using run by (rule addComponent_appends)
  qed
  have ae: "\<forall>e' mgr' w'. FDS_EntityManager_addEntity mgr w = (e', mgr', w')
             \<longrightarrow> m_entities mgr' = m_entities mgr @ [e']"
    by (intro allI impI) (rule addEntity_appends)
  from entity_update_fold [OF keep ent] entity_draw_fold [OF keep ent] mu md ac ae
  show ?thesis by (intro conjI)
qed

theorem dispatch_in_insertion_order_witness:
  "entity_owned two_entities 0
   \<and> manager_owned \<lparr>m_entities = [0, 1]\<rparr> two_entities
   \<and> FDS_Entity_isActive 0 two_entities = Inr False
   \<and> FDS_Entity_update recorder 0 two_entities
       = Inr (two_entities\<lparr>user := [(Update, 5, 0), (Update, 7, 1)]\<rparr>)
   \<and> FDS_Entity_draw recorder 0 two_entities
       = Inr (two_entities\<lparr>user := [(Draw, 5, 0), (Draw, 7, 1)]\<rparr>)
   \<and> FDS_EntityManager_update recorder \<lparr>m_entities = [0, 1]\<rparr> two_entities
       = Inr (two_entities\<lparr>user := [(Update, 5, 0), (Update, 7, 1), (Update, 5, 2)]\<rparr>)
   \<and> FDS_EntityManager_draw recorder \<lparr>m_entities = [0, 1]\<rparr> two_entities
       = Inr (two_entities\<lparr>user := [(Draw, 5, 0), (Draw, 7, 1), (Draw, 5, 2)]\<rparr>)
   \<and> fst (snd (FDS_EntityManager_addEntity \<lparr>m_entities = [0, 1]\<rparr> two_entities))
       = \<lparr>m_entities = [0, 1, 2]\<rparr>
   \<and> m_entities (fst (snd (FDS_EntityManager_addEntity \<lparr>m_entities = [0, 1]\<rparr> two_entities)))
       = m_entities \<lparr>m_entities = [0, 1]\<rparr>
           @ [fst (FDS_EntityManager_addEntity \<lparr>m_entities = [0, 1]\<rparr> two_entities)]"
proof -
  have h1: "entity_owned two_entities 0"
    by (simp add: entity_owned_def store_lookup_def two_entities_def)
  have h2: "manager_owned \<lparr>m_entities = [0, 1]\<rparr> two_entities"
    by (simp add: manager_owned_def entity_owned_def store_lookup_def two_entities_def)
  have h3: "FDS_Entity_isActive 0 two_entities = Inr False"
    by (simp add: FDS_Entity_isActive_def store_lookup_def two_entities_def)
  have c0: "components_of two_entities 0 = [0, 1]" and c1: "components_of two_entities 1 = [2]"
    by (simp_all add: components_of_def store_lookup_def two_entities_def)
  have u: "foldl (virtual_call update recorder) two_entities [0, 1]
             = two_entities\<lparr>user := [(Update, 5, 0), (Update, 7, 1)]\<rparr>"
      "foldl (virtual_call update recorder) two_entities [0, 1, 2]
             = two_entities\<lparr>user := [(Update, 5, 0), (Update, 7, 1), (Update, 5, 2)]\<rparr>"
      "foldl (virtual_call draw recorder) two_entities [0, 1]
             = two_entities\<lparr>user := [(Draw, 5, 0), (Draw, 7, 1)]\<rparr>"
      "foldl (virtual_call draw recorder) two_entities [0, 1, 2]
             = two_entities\<lparr>user := [(Draw, 5, 0), (Draw, 7, 1), (Draw, 5, 2)]\<rparr>"
    by (simp_all add: virtual_call_def store_lookup_def two_entities_def recorder_def)
  have cc: "concat (map (components_of two_entities) (m_entities \<lparr>m_entities = [0, 1]\<rparr>))
              = [0, 1, 2]"
    by (simp only: FDS_EntityManager.select_convs list.map concat.simps append.simps c0 c1)
  have ae: "fst (snd (FDS_EntityManager_addEntity \<lparr>m_entities = [0, 1]\<rparr> two_entities))
              = \<lparr>m_entities = [0, 1, 2]\<rparr>"
    by (simp add: FDS_EntityManager_addEntity_def store_new_def two_entities_def)
  have pr: "FDS_EntityManager_addEntity \<lparr>m_entities = [0, 1]\<rparr> two_entities
              = (fst (FDS_EntityManager_addEntity \<lparr>m_entities = [0, 1]\<rparr> two_entities),
                 fst (snd (FDS_EntityManager_addEntity \<lparr>m_entities = [0, 1]\<rparr> two_entities)),
                 snd (snd (FDS_EntityManager_addEntity \<lparr>m_entities = [0, 1]\<rparr> two_entities)))"
    by simp
  note r = dispatch_in_insertion_order [OF recorder_keeps_layout h1 h2]
  from r have all: "\<forall>e' mgr' w'.
        FDS_EntityManager_addEntity \<lparr>m_entities = [0, 1]\<rparr> two_entities = (e', mgr', w')
          \<longrightarrow> m_entities mgr' = m_entities \<lparr>m_entities = [0, 1]\<rparr> @ [e']"
    by (elim conjE)
  have ap: "m_entities (fst (snd (FDS_EntityManager_addEntity \<lparr>m_entities = [0, 1]\<rparr> two_entities)))
       = m_entities \<lparr>m_entities = [0, 1]\<rparr>
           @ [fst (FDS_EntityManager_addEntity \<lparr>m_entities = [0, 1]\<rparr> two_entities)]"
    by (rule all [rule_format, OF pr])
  from r have run: "FDS_Entity_update recorder 0 two_entities
       = Inr (two_entities\<lparr>user := [(Update, 5, 0), (Update, 7, 1)]\<rparr>)
   \<and> FDS_Entity_draw recorder 0 two_entities
       = Inr (two_entities\<lparr>user := [(Draw, 5, 0), (Draw, 7, 1)]\<rparr>)
   \<and> FDS_EntityManager_update recorder \<lparr>m_entities = [0, 1]\<rparr> two_entities
       = Inr (two_entities\<lparr>user := [(Update, 5, 0), (Update, 7, 1), (Update, 5, 2)]\<rparr>)
   \<and> FDS_EntityManager_draw recorder \<lparr>m_entities = [0, 1]\<rparr> two_entities
       = Inr (two_entities\<lparr>user := [(Draw, 5, 0), (Draw, 7, 1), (Draw, 5, 2)]\<rparr>)"
    unfolding cc c0 u by (elim conjE) (intro conjI)
  from h1 h2 h3 run ae ap show ?thesis by (elim conjE) (intro conjI)
qed

section \<open>A second component of the same type\<close>

lemma entity_owned_after_add:
  assumes owned: "entity_owned w e" and live: "store_lookup (ents w) e = Some ent"
  shows "entity_owned
           (w\<lparr>reg := r,
              ents := store_put e
                        (ent\<lparr>m_components := m_components ent @ [length (comps w)],
                             m_comArray := A, m_comBitSet := B\<rparr>) (ents w),
              comps := comps w @ [Some x]\<rparr>) e"
proof -
  have lt: "e < length (ents w)" using live by (rule store_lookup_Some_less)
  from owned live have all: "list_all (\<lambda>c. store_lookup (comps w) c \<noteq> None) (m_components ent)"
    by (simp add: entity_owned_def)
  then have "list_all (\<lambda>c. store_lookup (comps w @ [Some x]) c \<noteq> None) (m_components ent)"
    by (simp add: list_all_iff)
  with lt show ?thesis by (simp add: entity_owned_def)
qed

text \<open>
  C3. Entity \<open>e\<close> shows component \<open>c1\<close> for type \<open>T\<close>, and \<open>c1\<close> is in its owned
  sequence. A second \<^verbatim>\<open>addComponent<T>(args...)\<close> returns normally with a new object
  \<open>c2\<close>; afterwards \<^verbatim>\<open>hasComponent<T>()\<close> is true and \<^verbatim>\<open>getComponent<T>()\<close> returns
  \<open>c2\<close>; the object \<open>c1\<close> has not been deleted and is still in the owned sequence,
  which has grown by \<open>c2\<close> at its end; and \<^verbatim>\<open>update()\<close> and \<^verbatim>\<open>draw()\<close> of the entity
  run the hooks of the whole sequence, \<open>c1\<close> included. (For hooks that keep the layout,
  and an \<^verbatim>\<open>init()\<close> that does not undo the registration it follows.)
\<close>

theorem second_addComponent_shadows:
  assumes keep: "hooks_keep_layout vt"
    and kept: "\<forall>c w0. attached T e c w0 \<longrightarrow> attached T e c (init (vt T) c w0)"
    and owned: "entity_owned w e"
    and att: "attached T e c1 w"
    and mem: "c1 \<in> set (components_of w e)"
  shows "\<exists>c2 w'. FDS_Entity_addComponent vt T args e w = Inr (c2, w')
           \<and> c2 \<noteq> c1
           \<and> attached T e c2 w'
           \<and> store_lookup (comps w') c1 \<noteq> None
           \<and> components_of w' e = components_of w e @ [c2]
           \<and> c1 \<in> set (components_of w' e)
           \<and> FDS_Entity_update vt e w'
               = Inr (foldl (virtual_call update vt) w' (components_of w e @ [c2]))
           \<and> FDS_Entity_draw vt e w'
               = Inr (foldl (virtual_call draw vt) w' (components_of w e @ [c2]))"
proof -
  from att obtain ent i x where f: "store_lookup (ents w) e = Some ent"
      "typeID (reg w) T = Some i" "unat i < FDS_MAX_COM"
      "store_lookup (comps w) c1 = Some x"
    unfolding attached_iff by blast
  have ir: "getComTypeID T (reg w) = (i, reg w)" using f(2) by (rule get_known)
  let ?c2 = "length (comps w)"
  let ?ent1 = "ent\<lparr>m_components := m_components ent @ [?c2],
                   m_comArray := (m_comArray ent)(unat i := Some ?c2),
                   m_comBitSet := set_bit (unat i) (m_comBitSet ent)\<rparr>"
  let ?w1 = "w\<lparr>reg := reg w, ents := store_put e ?ent1 (ents w),
               comps := comps w @ [Some \<lparr>owner = Some e, dyn_type = T, members = args\<rparr>]\<rparr>"
  let ?w' = "init (vt T) ?c2 ?w1"
  have ks: "keeps_layout (init (vt T))" using keep by (simp add: hooks_keep_layout_def)
  have run: "FDS_Entity_addComponent vt T args e w = Inr (?c2, ?w')"
    by (rule addComponent_eq [OF f(1) ir f(3)])
  have lt1: "c1 < length (comps w)" using f(4) by (rule store_lookup_Some_less)
  then have ne: "?c2 \<noteq> c1" by simp
  have att1: "attached T e ?c2 ?w1" by (rule attached_after_table [OF f(1) ir f(3) refl])
  have att': "attached T e ?c2 ?w'" using kept att1 by blast
  have lay: "layout ?w' = layout ?w1"
    using ks by (simp add: keeps_layout_def)
  have lt: "e < length (ents w)" using f(1) by (rule store_lookup_Some_less)
  have "store_lookup (comps ?w1) c1 \<noteq> None" using lt1 f(4) by simp
  then have alive: "store_lookup (comps ?w') c1 \<noteq> None"
    using layout_live [OF lay, of c1] by simp
  have seq: "components_of ?w' e = components_of w e @ [?c2]"
    using components_of_cong [OF lay, of e] f(1) lt by (simp add: components_of_def)
  have mem': "c1 \<in> set (components_of ?w' e)" unfolding seq using mem by simp
  have o1: "entity_owned ?w1 e" by (rule entity_owned_after_add [OF owned f(1)])
  have o': "entity_owned ?w' e" using entity_owned_cong [OF lay, of e] o1 by simp
  have u: "FDS_Entity_update vt e ?w'
             = Inr (foldl (virtual_call update vt) ?w' (components_of w e @ [?c2]))"
    using entity_update_fold [OF keep o'] seq by simp
  have d: "FDS_Entity_draw vt e ?w'
             = Inr (foldl (virtual_call draw vt) ?w' (components_of w e @ [?c2]))"
    using entity_draw_fold [OF keep o'] seq by simp
  from run ne att' alive seq mem' u d show ?thesis
    by (intro exI [of _ ?c2] exI [of _ ?w']) simp
qed

lemma one_component_live:
  "store_lookup (ents one_component) 0
     = Some \<lparr>m_isActive = True, m_components = [0],
             m_comArray = (\<lambda>i. None)(0 \<mapsto> 0), m_comBitSet = set_bit 0 0\<rparr>"
  by (simp add: one_component_def store_lookup_def)

lemma one_component_owned: "entity_owned one_component 0"
  by (simp add: entity_owned_def one_component_def store_lookup_def)

lemma one_component_attached: "attached 7 0 0 one_component"
  unfolding attached_iff
  by (simp add: one_component_def store_lookup_def FDS_MAX_COM_def bit_set_bit_iff)

lemma one_component_seq: "components_of one_component 0 = [0]"
  by (simp add: components_of_def one_component_def store_lookup_def)

lemma set_bit_0_1: "set_bit 0 (1 :: 32 word) = 1"
  by (simp add: set_bit_eq_or)

lemma one_component_add:
  "FDS_Entity_addComponent recorder 7 () 0 one_component = Inr (1, shadowed)"
proof -
  have ir: "getComTypeID (7::nat) (reg one_component) = (0, reg one_component)"
    by (simp add: one_component_def getComTypeID_def)
  have cap: "unat (0 :: 64 word) < FDS_MAX_COM" by (simp add: FDS_MAX_COM_def)
  show ?thesis
    unfolding addComponent_eq [OF one_component_live ir cap]
    by (simp add: one_component_def shadowed_def recorder_def store_put_def set_bit_0_1)
qed

lemma shadowed_loops:
  "foldl (virtual_call update recorder) shadowed [0, 1]
     = shadowed\<lparr>user := [(Init, 7, 0), (Init, 7, 1), (Update, 7, 0), (Update, 7, 1)]\<rparr>"
  "foldl (virtual_call draw recorder) shadowed [0, 1]
     = shadowed\<lparr>user := [(Init, 7, 0), (Init, 7, 1), (Draw, 7, 0), (Draw, 7, 1)]\<rparr>"
  by (simp_all add: virtual_call_def store_lookup_def shadowed_def recorder_def)

theorem second_addComponent_shadows_witness:
  "entity_owned one_component 0
   \<and> attached 7 0 0 one_component
   \<and> 0 \<in> set (components_of one_component 0)
   \<and> FDS_Entity_addComponent recorder 7 () 0 one_component = Inr (1, shadowed)
   \<and> attached 7 0 1 shadowed
   \<and> FDS_Entity_getComponent 7 0 shadowed = Inr (1, shadowed)
   \<and> store_lookup (comps shadowed) 0 = Some \<lparr>owner = Some 0, dyn_type = 7, members = ()\<rparr>
   \<and> components_of shadowed 0 = [0, 1]
   \<and> FDS_Entity_update recorder 0 shadowed
       = Inr (shadowed\<lparr>user := [(Init, 7, 0), (Init, 7, 1), (Update, 7, 0), (Update, 7, 1)]\<rparr>)
   \<and> FDS_Entity_draw recorder 0 shadowed
       = Inr (shadowed\<lparr>user := [(Init, 7, 0), (Init, 7, 1), (Draw, 7, 0), (Draw, 7, 1)]\<rparr>)"
proof -
  have m: "0 \<in> set (components_of one_component 0)" by (simp add: one_component_seq)
  have k: "\<forall>c w0. attached (7::nat) 0 c w0
             \<longrightarrow> attached 7 0 c (init (recorder 7) c (w0 :: recorded))"
    by (simp add: recorder_init_attached)
  from second_addComponent_shadows
         [OF recorder_keeps_layout k one_component_owned one_component_attached m, of "()"]
  obtain c2 w' where r: "FDS_Entity_addComponent recorder 7 () 0 one_component = Inr (c2, w')"
    and a: "attached 7 0 c2 w'"
    and q: "components_of w' 0 = components_of one_component 0 @ [c2]"
    and u: "FDS_Entity_update recorder 0 w'
              = Inr (foldl (virtual_call update recorder) w' (components_of one_component 0 @ [c2]))"
    and d: "FDS_Entity_draw recorder 0 w'
              = Inr (foldl (virtual_call draw recorder) w' (components_of one_component 0 @ [c2]))"
    by blast
  from r have e: "c2 = 1" "w' = shadowed" unfolding one_component_add by simp_all
  have a': "attached 7 0 1 shadowed" using a e by simp
  then have g: "FDS_Entity_getComponent 7 0 shadowed = Inr (1, shadowed)"
    by (simp add: attached_def)
  have x: "store_lookup (comps shadowed) 0 = Some \<lparr>owner = Some 0, dyn_type = 7, members = ()\<rparr>"
    by (simp add: shadowed_def store_lookup_def)
  have q': "components_of shadowed 0 = [0, 1]"
    using q unfolding e one_component_seq by simp
  have u': "FDS_Entity_update recorder 0 shadowed
       = Inr (shadowed\<lparr>user := [(Init, 7, 0), (Init, 7, 1), (Update, 7, 0), (Update, 7, 1)]\<rparr>)"
    using u unfolding e one_component_seq append.simps shadowed_loops .
  have d': "FDS_Entity_draw recorder 0 shadowed
       = Inr (shadowed\<lparr>user := [(Init, 7, 0), (Init, 7, 1), (Draw, 7, 0), (Draw, 7, 1)]\<rparr>)"
    using d unfolding e one_component_seq append.simps shadowed_loops .
  from one_component_owned one_component_attached m one_component_add a' g x q' u' d'
  show ?thesis by blast
qed

section \<open>Removal of destroyed entities\<close>

lemma ent_view_Some:
  "store_lookup (ents w) e = Some x \<Longrightarrow> ent_view w e = Some (m_isActive x, m_components x)"
  by (simp add: ent_view_def)




















lemma base_class_keeps_views: "dtors_keep_views (\<lambda>T. FDS_Component_vtable)"
  by (simp add: dtors_keep_views_def FDS_Component_vtable_def)








section \<open>The lookup table and the bitset\<close>

lemma table_agrees_new: "table_agrees FDS_Entity_new"
  by (simp add: table_agrees_def FDS_Entity_new_def)

lemma table_agrees_set:
  assumes "table_agrees ent" and "unat i < FDS_MAX_COM"
  shows "table_agrees (ent\<lparr>m_components := m_components ent @ [c],
                            m_comArray := (m_comArray ent)(unat i := Some c),
                            m_comBitSet := set_bit (unat i) (m_comBitSet ent)\<rparr>)"
  using assms by (auto simp: table_agrees_def bit_set_bit_iff FDS_MAX_COM_def)

text \<open>
  C7. On a fresh entity the bitset and the lookup table agree (\<open>table_agrees\<close>: a bit
  is set exactly when the entry is non-null, and a non-null entry points into the owned
  sequence), every entry being null.
  \<^verbatim>\<open>addComponent\<close> for a type within capacity keeps them in agreement (whenever
  \<^verbatim>\<open>init()\<close> does). And where they agree: if \<^verbatim>\<open>hasComponent<T>()\<close> returns true, the
  entry for the identifier of \<open>T\<close> is a non-null pointer and \<^verbatim>\<open>getComponent<T>()\<close>
  returns it; if it returns false, the entry is null and \<^verbatim>\<open>getComponent<T>()\<close>
  dereferences the null pointer.
\<close>

theorem table_and_bitset_agree:
  "table_agrees FDS_Entity_new \<and> (\<forall>i. m_comArray FDS_Entity_new i = None)
   \<and> (entity_agrees w e \<and> unat (fst (getComTypeID T (reg w))) < FDS_MAX_COM
        \<and> (\<forall>c w0. entity_agrees w0 e \<longrightarrow> entity_agrees (init (vt T) c w0) e)
      \<longrightarrow> (\<exists>c w'. FDS_Entity_addComponent vt T args e w = Inr (c, w') \<and> entity_agrees w' e))
   \<and> (\<forall>ent b w'. store_lookup (ents w) e = Some ent \<and> table_agrees ent
          \<and> FDS_Entity_hasComponent T e w = Inr (b, w')
        \<longrightarrow> (if b
             then \<exists>c. m_comArray ent (unat (fst (getComTypeID T (reg w)))) = Some c
                    \<and> c \<in> set (m_components ent)
                    \<and> FDS_Entity_getComponent T e w' = Inr (c, w')
             else m_comArray ent (unat (fst (getComTypeID T (reg w)))) = None
                    \<and> FDS_Entity_getComponent T e w' = Inl NullDeref))"
proof (intro conjI impI allI)
  show "table_agrees FDS_Entity_new" by (rule table_agrees_new)
next
  fix i show "m_comArray FDS_Entity_new i = None" by (simp add: FDS_Entity_new_def)
next
  assume a: "entity_agrees w e \<and> unat (fst (getComTypeID T (reg w))) < FDS_MAX_COM
        \<and> (\<forall>c w0. entity_agrees w0 e \<longrightarrow> entity_agrees (init (vt T) c w0) e)"
  then obtain ent where ent: "store_lookup (ents w) e = Some ent" and ag: "table_agrees ent"
    by (auto simp: entity_agrees_def split: option.splits)
  obtain i r where ir: "getComTypeID T (reg w) = (i, r)" by (cases "getComTypeID T (reg w)")
  with a have cap: "unat i < FDS_MAX_COM" by simp
  let ?c = "length (comps w)"
  let ?w1 = "w\<lparr>reg := r,
               ents := store_put e
                         (ent\<lparr>m_components := m_components ent @ [?c],
                              m_comArray := (m_comArray ent)(unat i := Some ?c),
                              m_comBitSet := set_bit (unat i) (m_comBitSet ent)\<rparr>) (ents w),
               comps := comps w @ [Some \<lparr>owner = Some e, dyn_type = T, members = args\<rparr>]\<rparr>"
  have run: "FDS_Entity_addComponent vt T args e w = Inr (?c, init (vt T) ?c ?w1)"
    by (rule addComponent_eq [OF ent ir cap])
  have lt: "e < length (ents w)" using ent by (rule store_lookup_Some_less)
  have "entity_agrees ?w1 e"
    using lt table_agrees_set [OF ag cap] by (simp add: entity_agrees_def)
  with a have "entity_agrees (init (vt T) ?c ?w1) e" by blast
  with run show "\<exists>c w'. FDS_Entity_addComponent vt T args e w = Inr (c, w') \<and> entity_agrees w' e"
    by blast
next
  fix ent b w'
  assume a: "store_lookup (ents w) e = Some ent \<and> table_agrees ent
          \<and> FDS_Entity_hasComponent T e w = Inr (b, w')"
  obtain i r where ir: "getComTypeID T (reg w) = (i, r)" by (cases "getComTypeID T (reg w)")
  from a ir have cap: "unat i < FDS_MAX_COM" and b: "b = bit (m_comBitSet ent) (unat i)"
    and w': "w' = w\<lparr>reg := r\<rparr>"
    by (auto simp: FDS_Entity_hasComponent_def split: if_splits)
  from a cap have slot: "bit (m_comBitSet ent) (unat i) = (m_comArray ent (unat i) \<noteq> None)"
    by (simp add: table_agrees_def)
  from a have own: "\<And>c. m_comArray ent (unat i) = Some c \<Longrightarrow> c \<in> set (m_components ent)"
    by (simp add: table_agrees_def)
  show "if b
             then \<exists>c. m_comArray ent (unat (fst (getComTypeID T (reg w)))) = Some c
                    \<and> c \<in> set (m_components ent)
                    \<and> FDS_Entity_getComponent T e w' = Inr (c, w')
             else m_comArray ent (unat (fst (getComTypeID T (reg w)))) = None
                    \<and> FDS_Entity_getComponent T e w' = Inl NullDeref"
    using a ir cap b w' slot own get_twice [of T "reg w"]
    by (auto simp: FDS_Entity_getComponent_def)
qed

lemma one_entity_agrees: "entity_agrees one_entity 0"
  by (simp add: entity_agrees_def one_entity_live table_agrees_new)

lemma one_component_has_7: "FDS_Entity_hasComponent 7 0 one_component = Inr (True, one_component)"
  using one_component_attached by (simp add: attached_def)

lemma one_component_has_9: "FDS_Entity_hasComponent 9 0 one_component
               = Inr (False, one_component\<lparr>reg := \<lparr>lastID = 2, typeID = (\<lambda>T. None)(7 \<mapsto> 0, 9 \<mapsto> 1)\<rparr>\<rparr>)"
  by (simp add: FDS_Entity_hasComponent_def one_component_live)
     (simp add: one_component_def getComTypeID_def getComTypeID0_def FDS_MAX_COM_def bit_set_bit_iff)

theorem table_and_bitset_agree_witness:
  "entity_agrees one_entity 0
   \<and> unat (fst (getComTypeID (7::nat) (reg one_entity))) < FDS_MAX_COM
   \<and> FDS_Entity_addComponent recorder 7 () 0 one_entity = Inr (0, one_component)
   \<and> entity_agrees one_component 0
   \<and> FDS_Entity_hasComponent 7 0 one_component = Inr (True, one_component)
   \<and> FDS_Entity_getComponent 7 0 one_component = Inr (0, one_component)
   \<and> FDS_Entity_hasComponent 9 0 one_component
       = Inr (False, one_component\<lparr>reg := \<lparr>lastID = 2, typeID = (\<lambda>T. None)(7 \<mapsto> 0, 9 \<mapsto> 1)\<rparr>\<rparr>)
   \<and> FDS_Entity_getComponent 9 0
         (one_component\<lparr>reg := \<lparr>lastID = 2, typeID = (\<lambda>T. None)(7 \<mapsto> 0, 9 \<mapsto> 1)\<rparr>\<rparr>)
       = Inl NullDeref"
proof -
  let ?ent = "\<lparr>m_isActive = True, m_components = [0],
               m_comArray = (\<lambda>i. None)(0 \<mapsto> 0), m_comBitSet = set_bit 0 0\<rparr>"
  let ?w9 = "one_component\<lparr>reg := \<lparr>lastID = 2, typeID = (\<lambda>T. None)(7 \<mapsto> 0, 9 \<mapsto> 1)\<rparr>\<rparr>"
  have cap: "unat (fst (getComTypeID (7::nat) (reg one_entity))) < FDS_MAX_COM"
    by (simp add: one_entity_def getComTypeID_def getComTypeID0_def registry_start_def
        FDS_MAX_COM_def)
  have kept: "\<forall>c w0. entity_agrees w0 0 \<longrightarrow> entity_agrees (init (recorder (7::nat)) c (w0 :: recorded)) 0"
    by (simp add: entity_agrees_def recorder_def)
  from table_and_bitset_agree [of one_entity 0 7 recorder "()"] one_entity_agrees cap kept
  obtain c w' where "FDS_Entity_addComponent recorder 7 () 0 one_entity = Inr (c, w')"
    and "entity_agrees w' 0" by blast
  then have ag: "entity_agrees one_component 0" unfolding one_entity_add by simp
  then have ta: "table_agrees ?ent" by (simp add: entity_agrees_def one_component_live)
  from table_and_bitset_agree [of one_component 0 7] one_component_live ta one_component_has_7
  have "\<exists>c. m_comArray ?ent (unat (fst (getComTypeID (7::nat) (reg one_component)))) = Some c
          \<and> c \<in> set (m_components ?ent)
          \<and> FDS_Entity_getComponent 7 0 one_component = Inr (c, one_component)"
    by (metis (no_types, lifting))
  then have g7: "FDS_Entity_getComponent 7 0 one_component = Inr (0, one_component)"
    by (auto simp: one_component_def getComTypeID_def)
  from table_and_bitset_agree [of one_component 0 9] one_component_live ta one_component_has_9
  have g9: "FDS_Entity_getComponent 9 0 ?w9 = Inl NullDeref"
    by (metis (no_types, lifting))
  from one_entity_agrees cap one_entity_add ag one_component_has_7 g7 one_component_has_9 g9 show ?thesis by blast
qed

section \<open>Emission of a signal\<close>

lemma emit_loop_subseq: "subseq (map fst (fst (emit_loop call args ids w))) ids"
proof (induction ids arbitrary: args w)
  case Nil
  then show ?case by simp
next
  case (Cons k ids)
  show ?case
  proof (cases "slots (sig w) k")
    case None
    then show ?thesis using Cons.IH [of args w] by (simp add: list_emb_Cons)
  next
    case (Some s)
    then show ?thesis using Cons.IH [of "fst (call s args w)" "snd (call s args w)"]
      by (simp add: case_prod_beta)
  qed
qed

lemma emit_loop_all:
  assumes keep: "keeps_slots call"
    and conn: "set ids \<subseteq> dom (slots (sig w))"
  shows "map fst (fst (emit_loop call args ids w)) = ids"
  using conn
proof (induction ids arbitrary: args w)
  case Nil
  then show ?case by simp
next
  case (Cons k ids)
  then obtain s where s: "slots (sig w) k = Some s" by auto
  obtain args' w1 where c: "call s args w = (args', w1)" by (cases "call s args w")
  have le: "slots (sig w) \<subseteq>\<^sub>m slots (sig w1)"
    using keep c unfolding keeps_slots_def by (metis snd_conv)
  have "set ids \<subseteq> dom (slots (sig w1))"
  proof
    fix x assume "x \<in> set ids"
    with Cons.prems have "x \<in> dom (slots (sig w))" by auto
    with map_le_implies_dom_le [OF le] show "x \<in> dom (slots (sig w1))" by blast
  qed
  then have "map fst (fst (emit_loop call args' ids w1)) = ids" by (rule Cons.IH)
  then show ?case using s c by (simp add: case_prod_beta)
qed

lemma issues_fresh_refl: "issues_fresh s s"
  by (simp add: issues_fresh_def)

lemma issues_fresh_trans:
  assumes "issues_fresh s t" and "issues_fresh t u"
  shows "issues_fresh s u"
proof -
  have "unat (next_id s) \<le> unat (next_id u)"
    using assms by (simp add: issues_fresh_def)
  moreover have "slots s key = Some x
      \<or> (unat (next_id s) < unat key \<and> unat key \<le> unat (next_id u))"
    if u: "slots u key = Some x" for key x
  proof -
    from assms(2) u
    consider "slots t key = Some x"
      | "unat (next_id t) < unat key" "unat key \<le> unat (next_id u)"
      unfolding issues_fresh_def by blast
    then show ?thesis
    proof cases
      case 1
      with assms(1)
      consider "slots s key = Some x"
        | "unat (next_id s) < unat key" "unat key \<le> unat (next_id t)"
        unfolding issues_fresh_def by blast
      then show ?thesis
      proof cases
        case 1
        then show ?thesis by simp
      next
        case 2
        moreover have "unat (next_id t) \<le> unat (next_id u)"
          using assms(2) by (simp add: issues_fresh_def)
        ultimately show ?thesis by simp
      qed
    next
      case 2
      moreover have "unat (next_id s) \<le> unat (next_id t)"
        using assms(1) by (simp add: issues_fresh_def)
      ultimately show ?thesis by simp
    qed
  qed
  ultimately show ?thesis unfolding issues_fresh_def by blast
qed

lemma issues_fresh_disconnect: "issues_fresh s (disconnect key s)"
  by (simp add: issues_fresh_def disconnect_def)

lemma issues_fresh_disconnect_all: "issues_fresh s (disconnect_all s)"
  by (simp add: issues_fresh_def disconnect_all_def)

lemma unat_next:
  assumes "unat (n :: 64 word) < 2 ^ 64 - 1"
  shows "unat (n + 1) = unat n + 1"
  using assms by (simp add: unat_add_lem [THEN iffD1])

lemma issues_fresh_connect:
  assumes "unat (next_id s) < 2 ^ 64 - 1"
  shows "issues_fresh s (snd (connect slot s))"
  using unat_next [OF assms]
  by (auto simp: issues_fresh_def connect_def Let_def split: option.splits if_splits)

lemma issued_new: "issued Signal_new"
  by (simp add: issued_def Signal_new_def)

lemma issued_disconnect: "issued s \<Longrightarrow> issued (disconnect key s)"
  by (simp add: issued_def disconnect_def)

lemma issued_connect:
  assumes "issued s" and "unat (next_id s) < 2 ^ 64 - 1"
  shows "issued (snd (connect slot s))"
  using assms(1) unat_next [OF assms(2)]
  by (auto simp: issued_def connect_def Let_def split: option.splits if_splits)

lemma emit_loop_old:
  assumes steps: "list_all (\<lambda>(s, s'). issues_fresh s s') (emit_steps call args ids w)"
    and bound: "b \<le> unat (next_id (sig w))"
    and inv: "\<forall>key x. slots (sig w) key = Some x \<longrightarrow> m key = Some x \<or> b < unat key"
    and ids: "\<forall>key \<in> set ids. unat key \<le> b"
  shows "\<forall>(key, x) \<in> set (fst (emit_loop call args ids w)). m key = Some x"
  using steps bound inv ids
proof (induction ids arbitrary: args w)
  case Nil
  then show ?case by simp
next
  case (Cons k ids)
  show ?case
  proof (cases "slots (sig w) k")
    case None
    with Cons.prems have "list_all (\<lambda>(s, s'). issues_fresh s s') (emit_steps call args ids w)"
      by simp
    from Cons.IH [OF this Cons.prems(2) Cons.prems(3)] Cons.prems(4) None
    show ?thesis by simp
  next
    case (Some s)
    obtain args' w1 where c: "call s args w = (args', w1)" by (cases "call s args w")
    from Cons.prems(1) Some c
    have fresh: "issues_fresh (sig w) (sig w1)"
      and tl: "list_all (\<lambda>(s, s'). issues_fresh s s') (emit_steps call args' ids w1)"
      by simp_all
    have b1: "b \<le> unat (next_id (sig w1))"
      using fresh Cons.prems(2) by (simp add: issues_fresh_def)
    have inv1: "\<forall>key x. slots (sig w1) key = Some x \<longrightarrow> m key = Some x \<or> b < unat key"
    proof (intro allI impI)
      fix key x assume "slots (sig w1) key = Some x"
      with fresh have "slots (sig w) key = Some x \<or> unat (next_id (sig w)) < unat key"
        by (auto simp: issues_fresh_def)
      then show "m key = Some x \<or> b < unat key"
        using Cons.prems(2) Cons.prems(3) by auto
    qed
    have tl_ids: "\<forall>key \<in> set ids. unat key \<le> b" using Cons.prems(4) by simp
    have rec: "\<forall>(key, x) \<in> set (fst (emit_loop call args' ids w1)). m key = Some x"
      by (rule Cons.IH [OF tl b1 inv1 tl_ids])
    have "unat k \<le> b" using Cons.prems(4) by simp
    with Cons.prems(3) Some have "m k = Some s" by fastforce
    with rec Some c show ?thesis by (simp add: case_prod_beta)
  qed
qed

text \<open>
  C9, amended. \<^verbatim>\<open>emit(args...)\<close> walks the ids that the traversal of \<^verbatim>\<open>slots_\<close>
  yielded when the emission started. The ids whose slot it calls are among these, in
  the order of the traversal, each at most once. An id that is not connected when its
  turn comes is skipped; one that is connected has its slot called, and the loop goes on
  in the state the slot leaves, with the arguments as the slot leaves them. If no
  callable disconnects a slot, the ids called are exactly the ids of the traversal: every
  slot registered at the start is called once. If the ids of the signal were issued by
  its counter and every call leaves the signal as calls of \<^verbatim>\<open>connect\<close> and
  \<^verbatim>\<open>disconnect\<close> without a wrap of the counter do, then every call of the emission is
  of a slot registered at the start, under the id it had then: no slot connected from
  within a callback is called.
\<close>

theorem emit_visits_snapshot:
  "subseq (map fst (fst (emit call ids args w))) ids
   \<and> (slots (sig w) k = None \<longrightarrow> emit call (k # ids) args w = emit call ids args w)
   \<and> (\<forall>s. slots (sig w) k = Some s \<longrightarrow>
         emit call (k # ids) args w
           = ((k, s) # fst (emit call ids (fst (call s args w)) (snd (call s args w))),
              snd (emit call ids (fst (call s args w)) (snd (call s args w)))))
   \<and> (keeps_slots call \<and> traversal ids (sig w) \<longrightarrow> map fst (fst (emit call ids args w)) = ids)
   \<and> (issued (sig w) \<and> traversal ids (sig w)
        \<and> list_all (\<lambda>(s, s'). issues_fresh s s') (emit_steps call args ids w)
      \<longrightarrow> (\<forall>(key, x) \<in> set (fst (emit call ids args w)). slots (sig w) key = Some x))"
proof (intro conjI impI allI)
  show "subseq (map fst (fst (emit call ids args w))) ids"
    unfolding emit_def by (rule emit_loop_subseq)
next
  assume "slots (sig w) k = None"
  then show "emit call (k # ids) args w = emit call ids args w" by (simp add: emit_def)
next
  fix s assume "slots (sig w) k = Some s"
  then show "emit call (k # ids) args w
           = ((k, s) # fst (emit call ids (fst (call s args w)) (snd (call s args w))),
              snd (emit call ids (fst (call s args w)) (snd (call s args w))))"
    by (simp add: emit_def case_prod_beta)
next
  assume "keeps_slots call \<and> traversal ids (sig w)"
  then show "map fst (fst (emit call ids args w)) = ids"
    unfolding emit_def by (intro emit_loop_all) (simp_all add: traversal_def)
next
  assume a: "issued (sig w) \<and> traversal ids (sig w)
        \<and> list_all (\<lambda>(s, s'). issues_fresh s s') (emit_steps call args ids w)"
  then have ids: "\<forall>key \<in> set ids. unat key \<le> unat (next_id (sig w))"
    by (auto simp: issued_def traversal_def)
  from a have steps: "list_all (\<lambda>(s, s'). issues_fresh s s') (emit_steps call args ids w)"
    by simp
  show "\<forall>(key, x) \<in> set (fst (emit call ids args w)). slots (sig w) key = Some x"
    unfolding emit_def by (rule emit_loop_old [OF steps le_refl _ ids]) simp
qed

lemma mutual_sig:
  "sig mutual = \<lparr>slots = (\<lambda>key. None)(1 \<mapsto> Drop 1 2, 2 \<mapsto> Drop 2 1), next_id = 2\<rparr>"
  by (simp add: mutual_def connect_def Signal_new_def Let_def)

lemma mutual_rest: "rest mutual = []"
  by (simp add: mutual_def)

text \<open>
  The claim as stated fails. Two slots are connected, each of which disconnects the
  other when called. In either order of traversal the emission calls one of them only:
  the disconnection made from within the first callback takes the second one, which was
  registered when the emission started, out of the emission in progress.
\<close>

theorem emit_disconnect_counterexample:
  "slots (sig mutual) 1 = Some (Drop 1 2)
   \<and> slots (sig mutual) 2 = Some (Drop 2 1)
   \<and> traversal [1, 2] (sig mutual)
   \<and> traversal [2, 1] (sig mutual)
   \<and> fst (emit run_slot [1, 2] () mutual) = [(1, Drop 1 2)]
   \<and> rest (snd (emit run_slot [1, 2] () mutual)) = [Drop 1 2]
   \<and> fst (emit run_slot [2, 1] () mutual) = [(2, Drop 2 1)]
   \<and> rest (snd (emit run_slot [2, 1] () mutual)) = [Drop 2 1]"
  by (auto simp: mutual_sig mutual_rest traversal_def emit_def disconnect_def)

lemma keeps_slots_keeping: "keeps_slots run_slot_keeping"
  unfolding keeps_slots_def
proof (intro allI)
  fix k :: slot_name and args :: unit and w :: "(slot_name, slot_name list) signal_world"
  show "slots (sig w) \<subseteq>\<^sub>m slots (sig (snd (run_slot_keeping k args w)))"
    by (cases k) (auto simp: connect_def Let_def map_le_def split: option.splits)
qed

lemma joiner_sig:
  "sig joiner = \<lparr>slots = (\<lambda>key. None)(1 \<mapsto> Join 1 9, 2 \<mapsto> Note 2), next_id = 2\<rparr>"
  by (simp add: joiner_def connect_def Signal_new_def Let_def)

lemma joiner_rest: "rest joiner = []"
  by (simp add: joiner_def)

lemma joiner_emit:
  "emit run_slot_keeping [2, 1] () joiner
     = ([(2, Note 2), (1, Join 1 9)],
        \<lparr>sig = \<lparr>slots = (\<lambda>key. None)(1 \<mapsto> Join 1 9, 2 \<mapsto> Note 2, 3 \<mapsto> Note 9), next_id = 3\<rparr>,
         rest = [Note 2, Join 1 9]\<rparr>)"
  by (simp add: emit_def joiner_sig connect_def Let_def)
     (simp add: joiner_def connect_def Signal_new_def Let_def)

lemma joiner_issued: "issued (sig joiner)"
proof -
  have a: "issued (snd (connect (Join 1 9) Signal_new))"
    by (rule issued_connect [OF issued_new]) (simp add: Signal_new_def)
  have "issued (snd (connect (Note 2) (snd (connect (Join 1 9) Signal_new))))"
    by (rule issued_connect [OF a]) (simp add: connect_def Signal_new_def Let_def)
  then show ?thesis by (simp add: joiner_def)
qed

lemma joiner_steps:
  "list_all (\<lambda>(s, s'). issues_fresh s s') (emit_steps run_slot_keeping () [2, 1] joiner)"
proof -
  have "unat (next_id (sig joiner)) < 2 ^ 64 - 1" by (simp add: joiner_sig)
  then have "issues_fresh (sig joiner) (snd (connect (Note 9) (sig joiner)))"
    by (rule issues_fresh_connect)
  then show ?thesis
    by (simp add: issues_fresh_refl joiner_sig)
qed

lemma takers_sig:
  "sig takers = \<lparr>slots = (\<lambda>key. None)(1 \<mapsto> 10, 2 \<mapsto> 20), next_id = 2\<rparr>"
  by (simp add: takers_def connect_def Signal_new_def Let_def)

lemma takers_emit:
  "emit run_taking [1, 2] ''tick'' takers
     = ([(1, 10), (2, 20)], takers\<lparr>rest := [(10, ''tick''), (20, [])]\<rparr>)"
  by (simp add: emit_def takers_sig) (simp add: takers_def)

theorem emit_visits_snapshot_witness:
  "traversal [2, 1] (sig joiner)
   \<and> issued (sig joiner)
   \<and> list_all (\<lambda>(s, s'). issues_fresh s s') (emit_steps run_slot_keeping () [2, 1] joiner)
   \<and> slots (sig joiner) 5 = None
   \<and> slots (sig joiner) 2 = Some (Note 2)
   \<and> subseq (map fst (fst (emit run_slot_keeping [2, 1] () joiner))) [2, 1]
   \<and> emit run_slot_keeping (5 # [2, 1]) () joiner = emit run_slot_keeping [2, 1] () joiner
   \<and> emit run_slot_keeping (2 # [1]) () joiner
       = ((2, Note 2)
            # fst (emit run_slot_keeping [1] (fst (run_slot_keeping (Note 2) () joiner))
                     (snd (run_slot_keeping (Note 2) () joiner))),
          snd (emit run_slot_keeping [1] (fst (run_slot_keeping (Note 2) () joiner))
                     (snd (run_slot_keeping (Note 2) () joiner))))
   \<and> map fst (fst (emit run_slot_keeping [2, 1] () joiner)) = [2, 1]
   \<and> list_all (\<lambda>(key, x). slots (sig joiner) key = Some x)
        (fst (emit run_slot_keeping [2, 1] () joiner))
   \<and> emit run_slot_keeping [2, 1] () joiner
     = ([(2, Note 2), (1, Join 1 9)],
        \<lparr>sig = \<lparr>slots = (\<lambda>key. None)(1 \<mapsto> Join 1 9, 2 \<mapsto> Note 2, 3 \<mapsto> Note 9), next_id = 3\<rparr>,
         rest = [Note 2, Join 1 9]\<rparr>)
   \<and> slots (sig takers) 1 = Some 10
   \<and> emit run_taking (1 # [2]) ''tick'' takers
       = ((1, 10) # fst (emit run_taking [2] [] (takers\<lparr>rest := [(10, ''tick'')]\<rparr>)),
          snd (emit run_taking [2] [] (takers\<lparr>rest := [(10, ''tick'')]\<rparr>)))
   \<and> emit run_taking [1, 2] ''tick'' takers
       = ([(1, 10), (2, 20)], takers\<lparr>rest := [(10, ''tick''), (20, [])]\<rparr>)"
proof -
  have t: "traversal [2, 1] (sig joiner)" by (auto simp: traversal_def joiner_sig)
  have n: "slots (sig joiner) 5 = None" by (simp add: joiner_sig)
  have s: "slots (sig joiner) 2 = Some (Note 2)" by (simp add: joiner_sig)
  from emit_visits_snapshot [of run_slot_keeping "[2, 1]" "()" joiner 5]
    keeps_slots_keeping t n joiner_issued joiner_steps
  have a: "subseq (map fst (fst (emit run_slot_keeping [2, 1] () joiner))) [2, 1]"
    and b: "emit run_slot_keeping (5 # [2, 1]) () joiner = emit run_slot_keeping [2, 1] () joiner"
    and c: "map fst (fst (emit run_slot_keeping [2, 1] () joiner)) = [2, 1]"
    and o: "\<forall>(key, x) \<in> set (fst (emit run_slot_keeping [2, 1] () joiner)).
              slots (sig joiner) key = Some x"
    by blast+
  from o have o': "list_all (\<lambda>(key, x). slots (sig joiner) key = Some x)
        (fst (emit run_slot_keeping [2, 1] () joiner))"
    by (simp add: list_all_iff)
  from emit_visits_snapshot [of run_slot_keeping "[1]" "()" joiner 2] s
  have d: "emit run_slot_keeping (2 # [1]) () joiner
       = ((2, Note 2)
            # fst (emit run_slot_keeping [1] (fst (run_slot_keeping (Note 2) () joiner))
                     (snd (run_slot_keeping (Note 2) () joiner))),
          snd (emit run_slot_keeping [1] (fst (run_slot_keeping (Note 2) () joiner))
                     (snd (run_slot_keeping (Note 2) () joiner))))"
    by blast
  have s1: "slots (sig takers) 1 = Some 10" by (simp add: takers_sig)
  have r: "run_taking 10 ''tick'' takers = ([], takers\<lparr>rest := [(10, ''tick'')]\<rparr>)"
    by (simp add: takers_def)
  have "\<forall>s. slots (sig takers) 1 = Some s \<longrightarrow>
         emit run_taking (1 # [2]) ''tick'' takers
           = ((1, s) # fst (emit run_taking [2] (fst (run_taking s ''tick'' takers))
                              (snd (run_taking s ''tick'' takers))),
              snd (emit run_taking [2] (fst (run_taking s ''tick'' takers))
                              (snd (run_taking s ''tick'' takers))))"
    using emit_visits_snapshot [of run_taking "[2]" "''tick''" takers 1]
    by (elim conjE)
  from this [rule_format, OF s1]
  have e: "emit run_taking (1 # [2]) ''tick'' takers
       = ((1, 10) # fst (emit run_taking [2] [] (takers\<lparr>rest := [(10, ''tick'')]\<rparr>)),
          snd (emit run_taking [2] [] (takers\<lparr>rest := [(10, ''tick'')]\<rparr>)))"
    unfolding r fst_conv snd_conv .
  show ?thesis
    by (intro conjI)
       (rule t joiner_issued joiner_steps n s a b d c o' joiner_emit s1 e takers_emit)+
qed

section \<open>The capacity\<close>

lemma new_type_id:
  assumes new: "T \<notin> set ts" and bound: "card (insert T (set ts)) < 2 ^ 64"
  shows "getComTypeID T (registry_after ts) = (of_nat (card (set ts)), registry_after (ts @ [T]))"
    and "unat (fst (getComTypeID T (registry_after ts))) = card (set ts)"
proof -
  have "card (set ts) \<le> card (insert T (set ts))" by (intro card_mono) auto
  then have small: "card (set ts) < 2 ^ 64" using bound by simp
  then have inv: "reg_inv (registry_after ts) (set ts)" by (rule reg_inv_after)
  then have none: "typeID (registry_after ts) T = None" using new by (auto simp: reg_inv_def)
  then have "fst (getComTypeID T (registry_after ts)) = lastID (registry_after ts)"
    by (simp add: getComTypeID_def getComTypeID0_def)
  then have f: "fst (getComTypeID T (registry_after ts)) = of_nat (card (set ts))"
    using inv by (simp add: reg_inv_def)
  then show "getComTypeID T (registry_after ts) = (of_nat (card (set ts)), registry_after (ts @ [T]))"
    by (simp add: registry_after_snoc prod_eq_iff)
  from f small show "unat (fst (getComTypeID T (registry_after ts))) = card (set ts)"
    by (simp add: unat_of_nat_64)
qed

text \<open>
  C8, amended. \<^verbatim>\<open>getComTypeID\<close> has no capacity check: a type that has not been seen
  gets the number of distinct types seen before it as its identifier, whether that is
  below \<open>FDS_MAX_COM\<close> or not (for fewer than \<open>2 ^ 64\<close> types), and the registration
  returns normally. For every type whose identifier is 32 or more, be it registered by
  this very call or earlier, \<^verbatim>\<open>addComponent\<close>, \<^verbatim>\<open>hasComponent\<close> and
  \<^verbatim>\<open>getComponent\<close> on a live entity index the bitset and the table out of range, which
  the code does not check (\<open>OutOfRange\<close> is undefined behaviour of the C++ program,
  not an error it reports).
\<close>

theorem registration_has_no_capacity_check:
  "(T \<notin> set ts \<and> card (insert T (set ts)) < 2 ^ 64
      \<longrightarrow> getComTypeID T (registry_after ts)
            = (of_nat (card (set ts)), registry_after (ts @ [T]))
        \<and> unat (fst (getComTypeID T (registry_after ts))) = card (set ts))
   \<and> (\<not> unat (fst (getComTypeID U (reg w))) < FDS_MAX_COM \<and> store_lookup (ents w) e \<noteq> None
      \<longrightarrow> FDS_Entity_addComponent vt U args e w = Inl OutOfRange
        \<and> FDS_Entity_hasComponent U e w = Inl OutOfRange
        \<and> FDS_Entity_getComponent U e w = Inl OutOfRange)"
proof (intro conjI impI)
  assume a: "T \<notin> set ts \<and> card (insert T (set ts)) < 2 ^ 64"
  then have new: "T \<notin> set ts" and bound: "card (insert T (set ts)) < 2 ^ 64" by blast+
  show "getComTypeID T (registry_after ts) = (of_nat (card (set ts)), registry_after (ts @ [T]))"
    by (rule new_type_id [OF new bound])
  show "unat (fst (getComTypeID T (registry_after ts))) = card (set ts)"
    by (rule new_type_id [OF new bound])
next
  assume a: "\<not> unat (fst (getComTypeID U (reg w))) < FDS_MAX_COM \<and> store_lookup (ents w) e \<noteq> None"
  then obtain ent where ent: "store_lookup (ents w) e = Some ent" by auto
  obtain i r where ir: "getComTypeID U (reg w) = (i, r)" by (cases "getComTypeID U (reg w)")
  with a have big: "\<not> unat i < FDS_MAX_COM" by simp
  show "FDS_Entity_addComponent vt U args e w = Inl OutOfRange"
    using ent ir big by (simp add: FDS_Entity_addComponent_def store_new_def Let_def)
  show "FDS_Entity_hasComponent U e w = Inl OutOfRange"
    using ent ir big by (simp add: FDS_Entity_hasComponent_def)
  show "FDS_Entity_getComponent U e w = Inl OutOfRange"
    using ent ir big by (simp add: FDS_Entity_getComponent_def)
qed

lemma card_upt: "card (set [0..<n]) = n"
  by simp

text \<open>
  The claim as stated fails. A process registers the 33 types 0, ..., 32. The 33rd
  registration is an ordinary return: it hands out the identifier 32, which is not
  below \<open>FDS_MAX_COM\<close>, and stores it like every other.
\<close>

theorem registration_beyond_capacity_counterexample:
  "card (set [0..<33]) = 33
   \<and> getComTypeID (32::nat) (registry_after [0..<32]) = (32, registry_after [0..<33])
   \<and> \<not> unat (32 :: 64 word) < FDS_MAX_COM"
proof -
  have n: "(32::nat) \<notin> set [0..<32]" by simp
  have b: "card (insert (32::nat) (set [0..<32])) < 2 ^ 64" by simp
  have "[0..<Suc 32] = [0..<32] @ [32]" by (rule upt_Suc_append) simp
  moreover have "Suc 32 = 33" by simp
  ultimately have e: "[0..<32] @ [32] = [0..<33]" by (simp only:)
  from new_type_id(1) [OF n b] show ?thesis
    unfolding e by (simp add: FDS_MAX_COM_def)
qed

lemma upt_33: "[0..<32] @ [32] = [0..<33]"
proof -
  have "[0..<Suc 32] = [0..<32] @ [32]" by (rule upt_Suc_append) simp
  moreover have "Suc 32 = 33" by simp
  ultimately show ?thesis by (simp only:)
qed

lemma type_33_registered:
  "getComTypeID (32::nat) (registry_after [0..<33]) = (32, registry_after [0..<33])"
proof -
  have n: "(32::nat) \<notin> set [0..<32]" by simp
  have b: "card (insert (32::nat) (set [0..<32])) < 2 ^ 64" by simp
  have first: "getComTypeID (32::nat) (registry_after [0..<32]) = (32, registry_after [0..<33])"
    using new_type_id(1) [OF n b] unfolding upt_33 by simp
  from get_twice [of "32::nat" "registry_after [0..<32]"] show ?thesis
    unfolding first by simp
qed

text \<open>
  The 33rd type at its registration, and the same type in a later call, when it is
  registered already; a 41st class name where 32 types have been seen.
\<close>

theorem registration_has_no_capacity_check_witness:
  "(40::nat) \<notin> set [0..<32]
   \<and> card (insert (40::nat) (set [0..<32])) < 2 ^ 64
   \<and> unat (fst (getComTypeID (40::nat) (registry_after [0..<32]))) = 32
   \<and> store_lookup (ents (one_entity\<lparr>reg := registry_after [0..<32]\<rparr>)) 0 \<noteq> None
   \<and> FDS_Entity_addComponent recorder 40 () 0 (one_entity\<lparr>reg := registry_after [0..<32]\<rparr>)
       = Inl OutOfRange
   \<and> typeID (registry_after [0..<33]) (32::nat) = Some 32
   \<and> store_lookup (ents (one_entity\<lparr>reg := registry_after [0..<33]\<rparr>)) 0 \<noteq> None
   \<and> FDS_Entity_addComponent recorder 32 () 0 (one_entity\<lparr>reg := registry_after [0..<33]\<rparr>)
       = Inl OutOfRange
   \<and> FDS_Entity_hasComponent 32 0 (one_entity\<lparr>reg := registry_after [0..<33]\<rparr>)
       = Inl OutOfRange
   \<and> FDS_Entity_getComponent 32 0 (one_entity\<lparr>reg := registry_after [0..<33]\<rparr>)
       = Inl OutOfRange"
proof -
  let ?w = "one_entity\<lparr>reg := registry_after [0..<32]\<rparr>"
  let ?v = "one_entity\<lparr>reg := registry_after [0..<33]\<rparr>"
  have n: "(40::nat) \<notin> set [0..<32]" by simp
  have b: "card (insert (40::nat) (set [0..<32])) < 2 ^ 64" by simp
  have l: "store_lookup (ents ?w) 0 \<noteq> None" by (simp add: one_entity_live)
  have l': "store_lookup (ents ?v) 0 \<noteq> None" by (simp add: one_entity_live)
  note first = registration_has_no_capacity_check
    [where T = "40::nat" and ts = "[0..<32]" and U = "40::nat" and w = ?w and e = 0
       and vt = recorder and args = "()"]
  from first n b
  have "unat (fst (getComTypeID (40::nat) (registry_after [0..<32]))) = card (set [0..<32])"
    by blast
  then have u: "unat (fst (getComTypeID (40::nat) (registry_after [0..<32]))) = 32"
    by simp
  then have big: "\<not> unat (fst (getComTypeID (40::nat) (reg ?w))) < FDS_MAX_COM"
    by (simp add: FDS_MAX_COM_def)
  from first big l
  have a40: "FDS_Entity_addComponent recorder 40 () 0 ?w = Inl OutOfRange"
    by blast
  have t: "typeID (registry_after [0..<33]) (32::nat) = Some 32"
    using type_33_registered by (rule get_same_registry)
  have big': "\<not> unat (fst (getComTypeID (32::nat) (reg ?v))) < FDS_MAX_COM"
    by (simp add: type_33_registered FDS_MAX_COM_def)
  from registration_has_no_capacity_check
    [where T = "40::nat" and ts = "[0..<32]" and U = "32::nat" and w = ?v and e = 0
       and vt = recorder and args = "()"] big' l'
  have "FDS_Entity_addComponent recorder 32 () 0 ?v = Inl OutOfRange"
    and "FDS_Entity_hasComponent 32 0 ?v = Inl OutOfRange"
    and "FDS_Entity_getComponent 32 0 ?v = Inl OutOfRange"
    by blast+
  with n b u l a40 t l' show ?thesis by blast
qed

end
